theory Spec2Isabelle
  imports Main "HOL-Library.Signed_Division"
begin

section \<open>The jsdsl circular buffer and option holder\<close>

text \<open>
  A shallow embedding of the two classes of the repository: \<open>CircularBuffer<T>\<close> and
  \<open>Option<T>\<close>. \<open>T | undefined\<close> is modelled as \<open>'a option\<close> with \<open>None\<close> for
  \<open>undefined\<close>, and a thrown \<open>Error\<close> as the left injection of a sum. Every mutating
  method returns its outcome together with the state of the object after the call, so that
  a mutation made before a throw would be visible.

  Numbers. A JavaScript number is an IEEE double. The fields of a buffer hold integers
  whenever the capacity is an integer, and every integer of magnitude at most \<open>2^53\<close> is a
  double, so sums and differences that stay in that range are exact. The index and count
  arithmetic of the methods is written below with exact integers: for a buffer that
  satisfies its invariants and has a capacity of at most \<open>2^52\<close>, every intermediate
  value of that arithmetic has magnitude at most \<open>2^53\<close>, and the exact integers are what
  the doubles compute. Beyond that range a sum is rounded; \<open>f64\<close> below is that rounding,
  \<open>freeSpace\<close> is written with it, and \<open>wrapIndex_f64\<close> is \<open>wrapIndex\<close> with its sum rounded.
\<close>

subsection \<open>JavaScript primitives used by the buffer\<close>

text \<open>
  The remainder operator \<open>%\<close> truncates towards zero and takes the sign of the dividend:
  on integers it is \<open>smod\<close>. (For a zero divisor JavaScript yields \<open>NaN\<close>; \<open>smod\<close> returns
  the dividend. Only a buffer of capacity zero divides by zero.)
\<close>

definition js_rem :: "int \<Rightarrow> int \<Rightarrow> int" where
  "js_rem a b = a smod b"

text \<open>
  The result of an addition or subtraction of two integer-valued doubles is the double
  nearest to the exact result, ties going to the even significand (53 bits). \<open>f64\<close> maps
  the exact integer result to that double; it is the identity up to magnitude \<open>2^53\<close>.
  (Results of magnitude \<open>2^1024\<close> or more, which JavaScript turns into \<open>Infinity\<close>, need a
  capacity of at least \<open>2^1023\<close> and are outside this model.)
\<close>

function bit_length :: "int \<Rightarrow> nat" where
  "bit_length n = (if n \<le> 0 then 0 else Suc (bit_length (n div 2)))"
  by pat_completeness auto
termination
  by (relation "measure nat") auto

declare bit_length.simps [simp del]

definition f64 :: "int \<Rightarrow> int" where
  "f64 x =
     (if \<bar>x\<bar> \<le> 2 ^ 53 then x
      else let q = 2 ^ (bit_length \<bar>x\<bar> - 53);
               m = \<bar>x\<bar> div q;
               r = \<bar>x\<bar> mod q;
               m1 = (if 2 * r < q \<or> (2 * r = q \<and> even m) then m else m + 1)
           in sgn x * (m1 * q))"

text \<open>
  The backing store is a JavaScript array that starts as \<open>[]\<close>. Reading an index outside
  the array (or a hole) gives \<open>undefined\<close>; writing at an index at or beyond the length
  extends the array with holes; a hole reads as \<open>undefined\<close>, and is listed as such when the
  array is spread. Negative indices are not array indices (a write there adds a property and
  leaves the elements as they are); they arise only for a non-positive capacity.
\<close>

definition js_get :: "'a option list \<Rightarrow> int \<Rightarrow> 'a option" where
  "js_get xs i = (if 0 \<le> i \<and> i < int (length xs) then xs ! nat i else None)"

definition js_set :: "'a option list \<Rightarrow> int \<Rightarrow> 'a option \<Rightarrow> 'a option list" where
  "js_set xs i v =
     (if i < 0 then xs
      else if i < int (length xs) then xs[nat i := v]
      else xs @ replicate (nat i - length xs) None @ [v])"

text \<open>
  \<open>Array.prototype.slice(start, end)\<close>: a negative argument counts from the end, both are
  clamped to the length, and the result is empty when the end does not exceed the start.
  With one argument the end is the length.
\<close>

definition js_slice :: "'a list \<Rightarrow> int \<Rightarrow> int \<Rightarrow> 'a list" where
  "js_slice xs start fin =
     (let len = int (length xs);
          k = (if start < 0 then max (len + start) 0 else min start len);
          final = (if fin < 0 then max (len + fin) 0 else min fin len)
      in take (nat (final - k)) (drop (nat k) xs))"

definition js_slice_from :: "'a list \<Rightarrow> int \<Rightarrow> 'a list" where
  "js_slice_from xs start = js_slice xs start (int (length xs))"

subsection \<open>CircularBuffer\<close>

datatype error = CapacityExceeded | InsufficientElements

record 'a CircularBuffer =
  firstIndex :: int
  elementCount :: int
  capacity :: int
  buffer :: "'a option list"
  allowOverwrite :: bool
  allowOverremove :: bool

definition new_CircularBuffer :: "int \<Rightarrow> bool \<Rightarrow> bool \<Rightarrow> 'a CircularBuffer" where
  "new_CircularBuffer cap ow orm =
     \<lparr> firstIndex = 0, elementCount = 0, capacity = cap, buffer = [],
       allowOverwrite = ow, allowOverremove = orm \<rparr>"

text \<open>
  \<open>wrapIndex\<close> with exact integers, as the methods below use it, and \<open>wrapIndex_f64\<close>, the
  same expression as JavaScript evaluates it for any capacity: the remainders are exact in
  doubles, the sum is rounded. The two agree for every capacity up to \<open>2^52\<close>.
\<close>

definition wrapIndex :: "'a CircularBuffer \<Rightarrow> int \<Rightarrow> int" where
  "wrapIndex b index = js_rem (js_rem index (capacity b) + capacity b) (capacity b)"

definition wrapIndex_f64 :: "'a CircularBuffer \<Rightarrow> int \<Rightarrow> int" where
  "wrapIndex_f64 b index =
     js_rem (f64 (js_rem index (capacity b) + capacity b)) (capacity b)"

definition getCapacity :: "'a CircularBuffer \<Rightarrow> int" where
  "getCapacity b = capacity b"

definition size_cb :: "'a CircularBuffer \<Rightarrow> int" where
  "size_cb b = elementCount b"

definition isEmpty :: "'a CircularBuffer \<Rightarrow> bool" where
  "isEmpty b = (size_cb b = 0)"

definition isFull :: "'a CircularBuffer \<Rightarrow> bool" where
  "isFull b = (size_cb b \<ge> getCapacity b)"

definition freeSpace :: "'a CircularBuffer \<Rightarrow> int" where
  "freeSpace b = f64 (getCapacity b - size_cb b)"

definition getEndIndex :: "'a CircularBuffer \<Rightarrow> int" where
  "getEndIndex b = wrapIndex b (firstIndex b + elementCount b)"

definition arePointersReversed :: "'a CircularBuffer \<Rightarrow> bool" where
  "arePointersReversed b = (firstIndex b > wrapIndex b (getEndIndex b - 1))"

definition checkInsertionLimitations :: "'a CircularBuffer \<Rightarrow> int \<Rightarrow> error + unit" where
  "checkInsertionLimitations b insertionSize =
     (if \<not> allowOverwrite b \<and> insertionSize > freeSpace b
      then Inl CapacityExceeded else Inr ())"

definition checkRemovalLimitations :: "'a CircularBuffer \<Rightarrow> int \<Rightarrow> error + unit" where
  "checkRemovalLimitations b removalSize =
     (if \<not> allowOverremove b \<and> removalSize > elementCount b
      then Inl InsufficientElements else Inr ())"

text \<open>One iteration of the \<open>for\<close> loop of \<open>enqueue\<close>.\<close>

definition enqueue_step :: "'a CircularBuffer \<Rightarrow> 'a \<Rightarrow> 'a CircularBuffer" where
  "enqueue_step b element =
     (let wasFull = isFull b;
          newFirstIndex = wrapIndex b (firstIndex b - 1);
          b1 = b\<lparr>buffer := js_set (buffer b) newFirstIndex (Some element)\<rparr>;
          b2 = b1\<lparr>firstIndex := newFirstIndex\<rparr>
      in if \<not> wasFull then b2\<lparr>elementCount := elementCount b2 + 1\<rparr> else b2)"

definition enqueue :: "'a CircularBuffer \<Rightarrow> 'a list \<Rightarrow> (error + int) \<times> 'a CircularBuffer" where
  "enqueue b elements =
     (case checkInsertionLimitations b (int (length elements)) of
        Inl e \<Rightarrow> (Inl e, b)
      | Inr _ \<Rightarrow>
          (let elements1 = (if allowOverwrite b
                            then js_slice_from elements (- getCapacity b) else elements);
               b1 = foldl enqueue_step b elements1
           in (Inr (size_cb b1), b1)))"

text \<open>One iteration of the \<open>for\<close> loop of \<open>push\<close>.\<close>

definition push_step :: "'a CircularBuffer \<Rightarrow> 'a \<Rightarrow> 'a CircularBuffer" where
  "push_step b element =
     (let wasFull = isFull b;
          b1 = b\<lparr>buffer := js_set (buffer b) (getEndIndex b) (Some element)\<rparr>
      in if \<not> wasFull then b1\<lparr>elementCount := elementCount b1 + 1\<rparr>
         else b1\<lparr>firstIndex := wrapIndex b1 (firstIndex b1 + 1)\<rparr>)"

definition push :: "'a CircularBuffer \<Rightarrow> 'a list \<Rightarrow> (error + int) \<times> 'a CircularBuffer" where
  "push b elements =
     (case checkInsertionLimitations b (int (length elements)) of
        Inl e \<Rightarrow> (Inl e, b)
      | Inr _ \<Rightarrow>
          (let elements1 = (if allowOverwrite b
                            then js_slice_from elements (- getCapacity b) else elements);
               b1 = foldl push_step b elements1
           in (Inr (size_cb b1), b1)))"

definition shift :: "'a CircularBuffer \<Rightarrow> (error + 'a option) \<times> 'a CircularBuffer" where
  "shift b =
     (if isEmpty b \<and> allowOverremove b then (Inr None, b)
      else case checkRemovalLimitations b 1 of
        Inl e \<Rightarrow> (Inl e, b)
      | Inr _ \<Rightarrow>
          (let result = js_get (buffer b) (firstIndex b);
               b1 = b\<lparr>buffer := js_set (buffer b) (firstIndex b) None\<rparr>;
               b2 = b1\<lparr>firstIndex := wrapIndex b1 (firstIndex b1 + 1)\<rparr>;
               b3 = b2\<lparr>elementCount := elementCount b2 - 1\<rparr>
           in (Inr result, b3)))"

definition dequeue :: "'a CircularBuffer \<Rightarrow> (error + 'a option) \<times> 'a CircularBuffer" where
  "dequeue b =
     (if isEmpty b \<and> allowOverremove b then (Inr None, b)
      else case checkRemovalLimitations b 1 of
        Inl e \<Rightarrow> (Inl e, b)
      | Inr _ \<Rightarrow>
          (let resultIndex = wrapIndex b (getEndIndex b - 1);
               result = js_get (buffer b) resultIndex;
               b1 = b\<lparr>buffer := js_set (buffer b) resultIndex None\<rparr>;
               b2 = b1\<lparr>elementCount := elementCount b1 - 1\<rparr>
           in (Inr result, b2)))"

definition pop :: "'a CircularBuffer \<Rightarrow> (error + 'a option) \<times> 'a CircularBuffer" where
  "pop b = dequeue b"

definition toArray :: "'a CircularBuffer \<Rightarrow> 'a option list" where
  "toArray b =
     (if arePointersReversed b
      then js_slice_from (buffer b) (firstIndex b) @ js_slice (buffer b) 0 (getEndIndex b)
      else js_slice (buffer b) (firstIndex b) (size_cb b))"

subsection \<open>Option\<close>

record 'a Option =
  hasInternalValue :: bool
  internalValue :: "'a option"

definition some :: "'a \<Rightarrow> 'a Option" where
  "some v = \<lparr> hasInternalValue = True, internalValue = Some v \<rparr>"

definition none :: "'a Option" where
  "none = \<lparr> hasInternalValue = False, internalValue = None \<rparr>"

definition isSome :: "'a Option \<Rightarrow> bool" where
  "isSome opt = hasInternalValue opt"

definition isNone :: "'a Option \<Rightarrow> bool" where
  "isNone opt = (\<not> hasInternalValue opt)"

definition getValue :: "'a Option \<Rightarrow> 'a option" where
  "getValue opt = internalValue opt"

definition setValueIfNone :: "'a Option \<Rightarrow> 'a \<Rightarrow> 'a Option" where
  "setValueIfNone opt valueIfNone =
     (if isNone opt then opt\<lparr>internalValue := Some valueIfNone\<rparr> else opt)"

subsection \<open>Invariants, the logical sequence and reachable states\<close>

text \<open>
  The two numeric invariants of the data model: \<open>0 \<le> count \<le> capacity\<close> and
  \<open>0 \<le> firstIndex < capacity\<close>. Together they make the capacity positive.
\<close>

definition bounds :: "'a CircularBuffer \<Rightarrow> bool" where
  "bounds b = (0 \<le> elementCount b \<and> elementCount b \<le> capacity b
               \<and> 0 \<le> firstIndex b \<and> firstIndex b < capacity b)"

text \<open>
  The logical sequence as the data model of the specification describes it (this definition
  follows the specification, not a method of the class; \<open>toArray\<close> above is the method): the
  \<open>n\<close> slots of the store \<open>xs\<close> starting at \<open>f\<close> and proceeding in increasing order
  modulo \<open>c\<close>.
\<close>

definition ring :: "'a option list \<Rightarrow> int \<Rightarrow> int \<Rightarrow> nat \<Rightarrow> 'a option list" where
  "ring xs c f n = map (\<lambda>i. js_get xs ((f + int i) mod c)) [0..<n]"

definition logical_sequence :: "'a CircularBuffer \<Rightarrow> 'a option list" where
  "logical_sequence b = ring (buffer b) (capacity b) (firstIndex b) (nat (elementCount b))"

text \<open>
  The backing array never grows beyond the capacity, and every occupied slot lies inside
  it.
\<close>

definition store_ok :: "'a CircularBuffer \<Rightarrow> bool" where
  "store_ok b =
     (int (length (buffer b)) \<le> capacity b
      \<and> (\<forall>i \<in> set [0..<nat (elementCount b)].
            (firstIndex b + int i) mod capacity b < int (length (buffer b))))"

text \<open>
  The states a buffer object can be in: constructed with a positive capacity, then any
  number of calls of the public mutating methods. A call that throws leaves the object in
  the state the method left it in, and the caller may go on using it.
\<close>

inductive reachable :: "'a CircularBuffer \<Rightarrow> bool" where
  reachable_new: "0 < cap \<Longrightarrow> reachable (new_CircularBuffer cap ow orm)"
| reachable_enqueue: "reachable b \<Longrightarrow> reachable (snd (enqueue b es))"
| reachable_push: "reachable b \<Longrightarrow> reachable (snd (push b es))"
| reachable_shift: "reachable b \<Longrightarrow> reachable (snd (shift b))"
| reachable_dequeue: "reachable b \<Longrightarrow> reachable (snd (dequeue b))"
| reachable_pop: "reachable b \<Longrightarrow> reachable (snd (pop b))"

subsection \<open>Sequences of calls\<close>

text \<open>
  A caller's script of several calls in a row; a thrown error ends the script, as an
  uncaught exception would. \<open>push_calls\<close> and \<open>enqueue_calls\<close> make one call per argument
  list; \<open>shift_times\<close> and \<open>dequeue_times\<close> call the method \<open>n\<close> times and collect what
  it returned.
\<close>

fun push_calls :: "'a CircularBuffer \<Rightarrow> 'a list list \<Rightarrow> error + 'a CircularBuffer" where
  "push_calls b [] = Inr b"
| "push_calls b (es # ess) =
     (case push b es of (Inl e, b1) \<Rightarrow> Inl e | (Inr k, b1) \<Rightarrow> push_calls b1 ess)"

fun enqueue_calls :: "'a CircularBuffer \<Rightarrow> 'a list list \<Rightarrow> error + 'a CircularBuffer" where
  "enqueue_calls b [] = Inr b"
| "enqueue_calls b (es # ess) =
     (case enqueue b es of (Inl e, b1) \<Rightarrow> Inl e | (Inr k, b1) \<Rightarrow> enqueue_calls b1 ess)"

fun shift_times :: "nat \<Rightarrow> 'a CircularBuffer \<Rightarrow> error + 'a option list \<times> 'a CircularBuffer" where
  "shift_times 0 b = Inr ([], b)"
| "shift_times (Suc n) b =
     (case shift b of
        (Inl e, b1) \<Rightarrow> Inl e
      | (Inr r, b1) \<Rightarrow>
          (case shift_times n b1 of Inl e \<Rightarrow> Inl e | Inr (rs, b2) \<Rightarrow> Inr (r # rs, b2)))"

fun dequeue_times :: "nat \<Rightarrow> 'a CircularBuffer \<Rightarrow> error + 'a option list \<times> 'a CircularBuffer" where
  "dequeue_times 0 b = Inr ([], b)"
| "dequeue_times (Suc n) b =
     (case dequeue b of
        (Inl e, b1) \<Rightarrow> Inl e
      | (Inr r, b1) \<Rightarrow>
          (case dequeue_times n b1 of Inl e \<Rightarrow> Inl e | Inr (rs, b2) \<Rightarrow> Inr (r # rs, b2)))"

text \<open>Push everything, then shift as many times as elements were pushed.\<close>

definition push_then_shift :: "'a CircularBuffer \<Rightarrow> 'a list list \<Rightarrow> error + 'a option list" where
  "push_then_shift b ess =
     (case push_calls b ess of
        Inl e \<Rightarrow> Inl e
      | Inr b1 \<Rightarrow>
          (case shift_times (length (concat ess)) b1 of
             Inl e \<Rightarrow> Inl e | Inr (rs, b2) \<Rightarrow> Inr rs))"

text \<open>Enqueue everything, then dequeue as many times as elements were enqueued.\<close>

definition enqueue_then_dequeue :: "'a CircularBuffer \<Rightarrow> 'a list list \<Rightarrow> error + 'a option list" where
  "enqueue_then_dequeue b ess =
     (case enqueue_calls b ess of
        Inl e \<Rightarrow> Inl e
      | Inr b1 \<Rightarrow>
          (case dequeue_times (length (concat ess)) b1 of
             Inl e \<Rightarrow> Inl e | Inr (rs, b2) \<Rightarrow> Inr rs))"

section \<open>Index normalisation\<close>

lemma js_rem_nonneg: "0 \<le> a \<Longrightarrow> 0 < c \<Longrightarrow> js_rem a c = a mod c"
  by (simp add: js_rem_def smod_int_alt_def sgn_if)

lemma js_rem_bounds: "0 < c \<Longrightarrow> - c < js_rem a c \<and> js_rem a c < c"
  using smod_int_range [where a = a and b = c] by (simp add: js_rem_def)

lemma js_rem_cong: "0 < c \<Longrightarrow> js_rem a c mod c = a mod c"
proof -
  assume c: "0 < c"
  have "js_rem a c + (a sdiv c) * c = a"
    by (simp add: js_rem_def smod_sdiv_mult_eq)
  then have "a mod c = (js_rem a c + (a sdiv c) * c) mod c"
    by simp
  then show ?thesis
    by simp
qed

lemma wrapIndex_mod:
  assumes "0 < capacity b"
  shows "wrapIndex b i = i mod capacity b"
proof -
  let ?c = "capacity b"
  have "0 \<le> js_rem i ?c + ?c"
    using js_rem_bounds [OF assms, of i] by simp
  then have "wrapIndex b i = (js_rem i ?c + ?c) mod ?c"
    by (simp add: wrapIndex_def js_rem_nonneg assms)
  also have "\<dots> = js_rem i ?c mod ?c"
    by simp
  finally show ?thesis
    by (simp add: js_rem_cong assms)
qed

lemmas f64_eval = f64_def Let_def bit_length.simps

lemma f64_exact: "\<bar>x\<bar> \<le> 2 ^ 53 \<Longrightarrow> f64 x = x"
  by (simp add: f64_def)

lemma wrapIndex_f64_exact:
  assumes "0 < capacity b" "capacity b \<le> 2 ^ 52"
  shows "wrapIndex_f64 b i = wrapIndex b i"
proof -
  let ?c = "capacity b"
  have "- ?c < js_rem i ?c \<and> js_rem i ?c < ?c"
    using assms(1) by (rule js_rem_bounds)
  then have "\<bar>js_rem i ?c + ?c\<bar> \<le> 2 ^ 53"
    using assms by simp
  then show ?thesis
    by (simp add: wrapIndex_f64_def wrapIndex_def f64_exact)
qed

text \<open>
  C9 states the normalisation for every positive capacity. The sum
  \<open>(index % capacity) + capacity\<close> is a double addition: at capacity \<open>2^53 - 1\<close> it is
  rounded, and \<open>wrapIndex(2)\<close> is 1 and \<open>wrapIndex(4)\<close> is 5.
\<close>

theorem wrapIndex_rounding_counterexample:
  "0 < capacity (new_CircularBuffer 9007199254740991 False False :: int CircularBuffer)
   \<and> wrapIndex_f64 (new_CircularBuffer 9007199254740991 False False :: int CircularBuffer) 2
       = 1
   \<and> wrapIndex_f64 (new_CircularBuffer 9007199254740991 False False :: int CircularBuffer) 4
       = 5
   \<and> wrapIndex_f64 (new_CircularBuffer 9007199254740991 False False :: int CircularBuffer) 2
       \<noteq> ((2 mod capacity (new_CircularBuffer 9007199254740991 False False :: int CircularBuffer))
            + capacity (new_CircularBuffer 9007199254740991 False False :: int CircularBuffer))
           mod capacity (new_CircularBuffer 9007199254740991 False False :: int CircularBuffer)"
  by (simp add: wrapIndex_f64_def new_CircularBuffer_def js_rem_def smod_int_alt_def f64_eval)

text \<open>
  C9, amended. For a positive capacity of at most \<open>2^52\<close> and any integer \<open>i\<close> of either
  sign, \<open>wrapIndex(i)\<close> as JavaScript evaluates it equals
  \<open>((i mod capacity) + capacity) mod capacity\<close> (read with the flooring remainder as well as
  with the truncating one), lies in \<open>[0, capacity)\<close>, and is what the exact-integer
  \<open>wrapIndex\<close> of the methods computes.
\<close>

theorem wrapIndex_f64_normalises:
  assumes "0 < capacity b" "capacity b \<le> 2 ^ 52"
  shows "wrapIndex_f64 b i = ((i mod capacity b) + capacity b) mod capacity b
         \<and> 0 \<le> wrapIndex_f64 b i \<and> wrapIndex_f64 b i < capacity b
         \<and> wrapIndex_f64 b i = wrapIndex b i"
proof -
  have "wrapIndex_f64 b i = wrapIndex b i"
    using assms by (rule wrapIndex_f64_exact)
  moreover have "wrapIndex b i = i mod capacity b"
    using assms(1) by (rule wrapIndex_mod)
  ultimately show ?thesis
    using assms(1) by simp
qed

theorem wrapIndex_f64_normalises_witness:
  "0 < capacity (new_CircularBuffer 4 False False :: int CircularBuffer)
   \<and> capacity (new_CircularBuffer 4 False False :: int CircularBuffer) \<le> 2 ^ 52
   \<and> wrapIndex_f64 (new_CircularBuffer 4 False False :: int CircularBuffer) (- 1) = 3
   \<and> wrapIndex_f64 (new_CircularBuffer 4 False False :: int CircularBuffer) (- 9) = 3
   \<and> wrapIndex_f64 (new_CircularBuffer 4 False False :: int CircularBuffer) 6 = 2
   \<and> 0 < capacity (new_CircularBuffer 4503599627370496 False False :: int CircularBuffer)
   \<and> capacity (new_CircularBuffer 4503599627370496 False False :: int CircularBuffer)
       \<le> 2 ^ 52
   \<and> wrapIndex_f64 (new_CircularBuffer 4503599627370496 False False :: int CircularBuffer)
         (- 1) = 4503599627370495"
  using wrapIndex_f64_normalises [of "new_CircularBuffer 4 False False :: int CircularBuffer" "- 1"]
    wrapIndex_f64_normalises [of "new_CircularBuffer 4 False False :: int CircularBuffer" "- 9"]
    wrapIndex_f64_normalises [of "new_CircularBuffer 4 False False :: int CircularBuffer" 6]
    wrapIndex_f64_normalises
      [of "new_CircularBuffer 4503599627370496 False False :: int CircularBuffer" "- 1"]
  by (simp add: new_CircularBuffer_def)

section \<open>The store and the ring of slots\<close>

lemma js_get_int: "js_get xs (int m) = (if m < length xs then xs ! m else None)"
  by (simp add: js_get_def)

lemma js_get_neg: "j < 0 \<Longrightarrow> js_get xs j = None"
  by (simp add: js_get_def)

lemma js_set_int:
  "js_set xs (int k) v =
     (if k < length xs then xs[k := v] else xs @ replicate (k - length xs) None @ [v])"
  by (simp add: js_set_def)

lemma length_js_set: "length (js_set xs (int k) v) = max (length xs) (Suc k)"
  by (simp add: js_set_int)

lemma js_get_set_nat:
  "js_get (js_set xs (int k) v) (int m) = (if m = k then v else js_get xs (int m))"
proof (cases "k < length xs")
  case True
  then show ?thesis by (simp add: js_get_int js_set_int)
next
  case False
  then have k: "length xs \<le> k" by simp
  show ?thesis
  proof (cases "m < length xs")
    case True
    with k show ?thesis by (simp add: js_get_int js_set_int nth_append)
  next
    case False
    then have m: "length xs \<le> m" by simp
    consider "m < k" | "m = k" | "k < m" by linarith
    then show ?thesis
    proof cases
      case 1
      with m have "m - length xs < k - length xs" by linarith
      with 1 k m show ?thesis
        by (simp add: js_get_int js_set_int nth_append)
    next
      case 2
      with k m show ?thesis
        by (simp add: js_get_int js_set_int nth_append)
    next
      case 3
      with k m show ?thesis
        by (simp add: js_get_int js_set_int)
    qed
  qed
qed

lemma js_get_set:
  assumes "0 \<le> i"
  shows "js_get (js_set xs i v) j = (if j = i then v else js_get xs j)"
proof (cases "j < 0")
  case True
  with assms show ?thesis by (simp add: js_get_neg)
next
  case False
  then obtain m where m: "j = int m" using nonneg_int_cases [of j] by auto
  from assms obtain k where k: "i = int k" using nonneg_int_cases [of i] by auto
  show ?thesis unfolding m k by (simp add: js_get_set_nat)
qed

lemma mod_shift_inj:
  fixes c f i j :: int
  assumes "0 < c" "0 \<le> i" "i < c" "0 \<le> j" "j < c" "(f + i) mod c = (f + j) mod c"
  shows "i = j"
proof -
  have "(f + i - f) mod c = (f + j - f) mod c"
    using assms(6) by (rule mod_diff_cong) simp
  then have "i mod c = j mod c" by simp
  with assms show ?thesis by simp
qed

lemma length_ring: "length (ring xs c f n) = n"
  by (simp add: ring_def)

lemma ring_mod: "ring xs c (f mod c) n = ring xs c f n"
  by (simp add: ring_def mod_add_left_eq)

lemma ring_Suc_back: "ring xs c f (Suc n) = ring xs c f n @ [js_get xs ((f + int n) mod c)]"
  by (simp add: ring_def)

lemma ring_Suc_front: "ring xs c f (Suc n) = js_get xs (f mod c) # ring xs c (f + 1) n"
proof -
  have upt: "[0..<Suc n] = 0 # map Suc [0..<n]"
    by (simp add: upt_conv_Cons map_Suc_upt del: upt_Suc)
  have "ring xs c f (Suc n) = map (\<lambda>i. js_get xs ((f + int i) mod c)) (0 # map Suc [0..<n])"
    by (simp only: ring_def upt)
  also have "\<dots> = js_get xs (f mod c) # map (\<lambda>i. js_get xs ((f + 1 + int i) mod c)) [0..<n]"
    by (simp add: comp_def algebra_simps)
  finally show ?thesis
    by (simp add: ring_def)
qed

lemma ring_js_set_miss:
  assumes "0 \<le> g" "\<And>i. i < n \<Longrightarrow> (f + int i) mod c \<noteq> g"
  shows "ring (js_set xs g v) c f n = ring xs c f n"
  unfolding ring_def using assms by (simp add: js_get_set)

lemma ring_write_back:
  assumes "0 < c" "int n < c"
  shows "ring (js_set xs ((f + int n) mod c) v) c f (Suc n) = ring xs c f n @ [v]"
proof -
  let ?g = "(f + int n) mod c"
  have g: "0 \<le> ?g" using assms by simp
  have miss: "(f + int i) mod c \<noteq> ?g" if "i < n" for i
    using mod_shift_inj [of c "int i" "int n" f] assms that by auto
  have "ring (js_set xs ?g v) c f n = ring xs c f n"
    using g miss by (rule ring_js_set_miss)
  then show ?thesis
    using g by (simp add: ring_Suc_back js_get_set)
qed

lemma ring_clear_back:
  assumes "0 < c" "int n < c"
  shows "ring (js_set xs ((f + int n) mod c) v) c f n = ring xs c f n"
  using ring_write_back [OF assms, of xs f v] by (simp add: ring_Suc_back)

lemma ring_clear_front:
  assumes "0 < c" "int n < c"
  shows "ring (js_set xs (f mod c) v) c (f + 1) n = ring xs c (f + 1) n"
proof -
  have g: "0 \<le> f mod c" using assms by simp
  have miss: "(f + 1 + int i) mod c \<noteq> f mod c" if "i < n" for i
    using mod_shift_inj [of c "1 + int i" 0 f] assms that by (auto simp: add.assoc)
  show ?thesis
    using g miss by (rule ring_js_set_miss)
qed

lemma ring_write_front:
  assumes "0 < c" "int n < c"
  shows "ring (js_set xs ((f - 1) mod c) v) c ((f - 1) mod c) (Suc n) = v # ring xs c f n"
proof -
  have g: "0 \<le> (f - 1) mod c" using assms by simp
  have "ring (js_set xs ((f - 1) mod c) v) c (f - 1) (Suc n)
        = v # ring (js_set xs ((f - 1) mod c) v) c f n"
    using g by (simp add: ring_Suc_front js_get_set)
  also have "ring (js_set xs ((f - 1) mod c) v) c f n = ring xs c f n"
    using ring_clear_front [OF assms, of xs "f - 1" v] by simp
  finally show ?thesis
    by (simp add: ring_mod)
qed

lemmas query_defs = isFull_def isEmpty_def size_cb_def getCapacity_def freeSpace_def
  getEndIndex_def

lemma bounds_capacity: "bounds b \<Longrightarrow> 0 < capacity b"
  by (simp add: bounds_def)

lemma push_step_frame:
  "capacity (push_step b e) = capacity b"
  "allowOverwrite (push_step b e) = allowOverwrite b"
  "allowOverremove (push_step b e) = allowOverremove b"
  by (simp_all add: push_step_def Let_def)

lemma enqueue_step_frame:
  "capacity (enqueue_step b e) = capacity b"
  "allowOverwrite (enqueue_step b e) = allowOverwrite b"
  "allowOverremove (enqueue_step b e) = allowOverremove b"
  by (simp_all add: enqueue_step_def Let_def)

lemma push_step_free_eq:
  assumes "bounds b" "elementCount b < capacity b"
  shows "push_step b e =
    b\<lparr>buffer := js_set (buffer b) ((firstIndex b + elementCount b) mod capacity b) (Some e),
      elementCount := elementCount b + 1\<rparr>"
  using assms by (simp add: push_step_def Let_def query_defs wrapIndex_mod bounds_def)

lemma push_step_full_eq:
  assumes "bounds b" "elementCount b = capacity b"
  shows "push_step b e =
    b\<lparr>buffer := js_set (buffer b) (firstIndex b) (Some e),
      firstIndex := (firstIndex b + 1) mod capacity b\<rparr>"
  using assms by (simp add: push_step_def Let_def query_defs wrapIndex_mod bounds_def)

lemma push_step_free:
  assumes "bounds b" "elementCount b < capacity b"
  shows "logical_sequence (push_step b e) = logical_sequence b @ [Some e]"
    and "bounds (push_step b e)"
    and "elementCount (push_step b e) = elementCount b + 1"
proof -
  note eq = push_step_free_eq [OF assms, of e]
  have c: "0 < capacity b" and n: "0 \<le> elementCount b"
    using assms by (simp_all add: bounds_def)
  have suc: "nat (elementCount b + 1) = Suc (nat (elementCount b))"
    using n by simp
  have lt: "int (nat (elementCount b)) < capacity b"
    using assms n by simp
  show "logical_sequence (push_step b e) = logical_sequence b @ [Some e]"
    using ring_write_back [OF c lt, of "buffer b" "firstIndex b" "Some e"] n
    by (simp add: eq logical_sequence_def suc)
  show "bounds (push_step b e)"
    using assms by (simp add: eq bounds_def)
  show "elementCount (push_step b e) = elementCount b + 1"
    by (simp add: eq)
qed

lemma full_count:
  assumes "bounds b" "elementCount b = capacity b"
  shows "nat (elementCount b) = Suc (nat (capacity b - 1))"
    and "int (nat (capacity b - 1)) < capacity b"
    and "int (nat (capacity b - 1)) = capacity b - 1"
proof -
  have c: "0 < capacity b"
    using assms by (simp add: bounds_def)
  show "nat (elementCount b) = Suc (nat (capacity b - 1))"
    using c assms(2) by arith
  show "int (nat (capacity b - 1)) < capacity b"
    using c by arith
  show "int (nat (capacity b - 1)) = capacity b - 1"
    using c by arith
qed

lemma push_step_full:
  assumes "bounds b" "elementCount b = capacity b"
  shows "logical_sequence (push_step b e) = tl (logical_sequence b) @ [Some e]"
    and "bounds (push_step b e)"
    and "elementCount (push_step b e) = elementCount b"
proof -
  note eq = push_step_full_eq [OF assms, of e]
  note m = full_count [OF assms]
  let ?c = "capacity b" and ?f = "firstIndex b" and ?m = "nat (capacity b - 1)"
  let ?xs = "js_set (buffer b) ?f (Some e)"
  have c: "0 < ?c" and f: "0 \<le> ?f" "?f < ?c" "?f mod ?c = ?f"
    using assms by (simp_all add: bounds_def)
  have last: "(?f + 1 + int ?m) mod ?c = ?f"
    using f by (simp add: m(3))
  have "ring ?xs ?c (?f + 1) (Suc ?m) = ring ?xs ?c (?f + 1) ?m @ [Some e]"
    using f(1) by (simp only: ring_Suc_back last js_get_set) simp
  moreover have "ring ?xs ?c (?f + 1) ?m = ring (buffer b) ?c (?f + 1) ?m"
    using ring_clear_front [OF c m(2), of "buffer b" ?f "Some e"] by (simp add: f)
  moreover have "tl (ring (buffer b) ?c ?f (Suc ?m)) = ring (buffer b) ?c (?f + 1) ?m"
    by (simp add: ring_Suc_front)
  ultimately show "logical_sequence (push_step b e) = tl (logical_sequence b) @ [Some e]"
    by (simp add: eq logical_sequence_def m(1) ring_mod)
  show "bounds (push_step b e)"
    using assms by (simp add: eq bounds_def)
  show "elementCount (push_step b e) = elementCount b"
    by (simp add: eq)
qed

lemma enqueue_step_free_eq:
  assumes "bounds b" "elementCount b < capacity b"
  shows "enqueue_step b e =
    b\<lparr>buffer := js_set (buffer b) ((firstIndex b - 1) mod capacity b) (Some e),
      firstIndex := (firstIndex b - 1) mod capacity b,
      elementCount := elementCount b + 1\<rparr>"
  using assms by (simp add: enqueue_step_def Let_def query_defs wrapIndex_mod bounds_def)

lemma enqueue_step_full_eq:
  assumes "bounds b" "elementCount b = capacity b"
  shows "enqueue_step b e =
    b\<lparr>buffer := js_set (buffer b) ((firstIndex b - 1) mod capacity b) (Some e),
      firstIndex := (firstIndex b - 1) mod capacity b\<rparr>"
  using assms by (simp add: enqueue_step_def Let_def query_defs wrapIndex_mod bounds_def)

lemma enqueue_step_free:
  assumes "bounds b" "elementCount b < capacity b"
  shows "logical_sequence (enqueue_step b e) = Some e # logical_sequence b"
    and "bounds (enqueue_step b e)"
    and "elementCount (enqueue_step b e) = elementCount b + 1"
proof -
  note eq = enqueue_step_free_eq [OF assms, of e]
  have c: "0 < capacity b" and n: "0 \<le> elementCount b"
    using assms by (simp_all add: bounds_def)
  have suc: "nat (elementCount b + 1) = Suc (nat (elementCount b))"
    using n by simp
  have lt: "int (nat (elementCount b)) < capacity b"
    using assms n by simp
  show "logical_sequence (enqueue_step b e) = Some e # logical_sequence b"
    using ring_write_front [OF c lt, of "buffer b" "firstIndex b" "Some e"]
    by (simp add: eq logical_sequence_def suc)
  show "bounds (enqueue_step b e)"
    using assms by (simp add: eq bounds_def)
  show "elementCount (enqueue_step b e) = elementCount b + 1"
    by (simp add: eq)
qed

lemma enqueue_step_full:
  assumes "bounds b" "elementCount b = capacity b"
  shows "logical_sequence (enqueue_step b e) = Some e # butlast (logical_sequence b)"
    and "bounds (enqueue_step b e)"
    and "elementCount (enqueue_step b e) = elementCount b"
proof -
  note eq = enqueue_step_full_eq [OF assms, of e]
  note m = full_count [OF assms]
  have c: "0 < capacity b"
    using assms by (simp add: bounds_def)
  show "logical_sequence (enqueue_step b e) = Some e # butlast (logical_sequence b)"
    using ring_write_front [OF c m(2), of "buffer b" "firstIndex b" "Some e"]
    by (simp add: eq logical_sequence_def m(1) ring_Suc_back)
  show "bounds (enqueue_step b e)"
    using assms by (simp add: eq bounds_def)
  show "elementCount (enqueue_step b e) = elementCount b"
    by (simp add: eq)
qed

lemma shift_nonempty_eq:
  assumes "bounds b" "0 < elementCount b"
  shows "shift b = (Inr (js_get (buffer b) (firstIndex b)),
    b\<lparr>buffer := js_set (buffer b) (firstIndex b) None,
      firstIndex := (firstIndex b + 1) mod capacity b,
      elementCount := elementCount b - 1\<rparr>)"
  using assms
  by (simp add: shift_def Let_def query_defs checkRemovalLimitations_def wrapIndex_mod bounds_def)

lemma shift_nonempty:
  assumes "bounds b" "0 < elementCount b"
  shows "fst (shift b) = Inr (hd (logical_sequence b))"
    and "logical_sequence (snd (shift b)) = tl (logical_sequence b)"
    and "bounds (snd (shift b))"
    and "elementCount (snd (shift b)) = elementCount b - 1"
proof -
  note eq = shift_nonempty_eq [OF assms]
  let ?c = "capacity b" and ?f = "firstIndex b" and ?m = "nat (elementCount b - 1)"
  have c: "0 < ?c" and f: "0 \<le> ?f" "?f < ?c" "?f mod ?c = ?f"
    using assms by (simp_all add: bounds_def)
  have suc: "nat (elementCount b) = Suc ?m" and lt: "int ?m < ?c"
    using assms by (simp_all add: bounds_def)
  show "fst (shift b) = Inr (hd (logical_sequence b))"
    by (simp add: eq logical_sequence_def suc ring_Suc_front f)
  show "logical_sequence (snd (shift b)) = tl (logical_sequence b)"
    using ring_clear_front [OF c lt, of "buffer b" ?f None]
    by (simp add: eq logical_sequence_def suc ring_Suc_front f ring_mod)
  show "bounds (snd (shift b))"
    using assms by (simp add: eq bounds_def)
  show "elementCount (snd (shift b)) = elementCount b - 1"
    by (simp add: eq)
qed

lemma dequeue_nonempty_eq:
  assumes "bounds b" "0 < elementCount b"
  shows "dequeue b =
    (Inr (js_get (buffer b) ((firstIndex b + (elementCount b - 1)) mod capacity b)),
     b\<lparr>buffer := js_set (buffer b)
                 ((firstIndex b + (elementCount b - 1)) mod capacity b) None,
       elementCount := elementCount b - 1\<rparr>)"
proof -
  have c: "0 < capacity b"
    using assms by (simp add: bounds_def)
  have "wrapIndex b (getEndIndex b - 1)
        = (firstIndex b + (elementCount b - 1)) mod capacity b"
    by (simp add: getEndIndex_def wrapIndex_mod c mod_diff_left_eq algebra_simps)
  then show ?thesis
    using assms
    by (simp add: dequeue_def Let_def isEmpty_def size_cb_def checkRemovalLimitations_def)
qed

lemma dequeue_nonempty:
  assumes "bounds b" "0 < elementCount b"
  shows "fst (dequeue b) = Inr (last (logical_sequence b))"
    and "logical_sequence (snd (dequeue b)) = butlast (logical_sequence b)"
    and "bounds (snd (dequeue b))"
    and "elementCount (snd (dequeue b)) = elementCount b - 1"
proof -
  note eq = dequeue_nonempty_eq [OF assms]
  let ?c = "capacity b" and ?f = "firstIndex b" and ?m = "nat (elementCount b - 1)"
  have c: "0 < ?c"
    using assms by (simp add: bounds_def)
  have suc: "nat (elementCount b) = Suc ?m" and lt: "int ?m < ?c"
    and m: "int ?m = elementCount b - 1"
    using assms by (simp_all add: bounds_def)
  show "fst (dequeue b) = Inr (last (logical_sequence b))"
    using assms(2) by (simp add: eq logical_sequence_def suc ring_Suc_back m)
  show "logical_sequence (snd (dequeue b)) = butlast (logical_sequence b)"
    using ring_clear_back [OF c lt, of "buffer b" ?f None] assms(2)
    by (simp add: eq logical_sequence_def suc ring_Suc_back m)
  show "bounds (snd (dequeue b))"
    using assms by (simp add: eq bounds_def)
  show "elementCount (snd (dequeue b)) = elementCount b - 1"
    by (simp add: eq)
qed

section \<open>The numeric invariants\<close>

lemma new_bounds: "0 < cap \<Longrightarrow> bounds (new_CircularBuffer cap ow orm)"
  by (simp add: bounds_def new_CircularBuffer_def)

lemma bounds_cases:
  assumes "bounds b"
  obtains (free) "elementCount b < capacity b" | (full) "elementCount b = capacity b"
  using assms unfolding bounds_def by linarith

lemma push_step_bounds:
  assumes "bounds b"
  shows "bounds (push_step b e)"
  using assms
proof (cases rule: bounds_cases)
  case free
  with assms show ?thesis by (rule push_step_free(2))
next
  case full
  with assms show ?thesis by (rule push_step_full(2))
qed

lemma enqueue_step_bounds:
  assumes "bounds b"
  shows "bounds (enqueue_step b e)"
  using assms
proof (cases rule: bounds_cases)
  case free
  with assms show ?thesis by (rule enqueue_step_free(2))
next
  case full
  with assms show ?thesis by (rule enqueue_step_full(2))
qed

lemma foldl_push_step_bounds: "bounds b \<Longrightarrow> bounds (foldl push_step b es)"
  by (induction es arbitrary: b) (simp_all add: push_step_bounds)

lemma foldl_enqueue_step_bounds: "bounds b \<Longrightarrow> bounds (foldl enqueue_step b es)"
  by (induction es arbitrary: b) (simp_all add: enqueue_step_bounds)

lemma foldl_push_step_capacity: "capacity (foldl push_step b es) = capacity b"
  by (induction es arbitrary: b) (simp_all add: push_step_frame)

lemma foldl_enqueue_step_capacity: "capacity (foldl enqueue_step b es) = capacity b"
  by (induction es arbitrary: b) (simp_all add: enqueue_step_frame)

lemma push_bounds: "bounds b \<Longrightarrow> bounds (snd (push b es))"
  by (simp add: push_def Let_def foldl_push_step_bounds split: sum.split)

lemma enqueue_bounds: "bounds b \<Longrightarrow> bounds (snd (enqueue b es))"
  by (simp add: enqueue_def Let_def foldl_enqueue_step_bounds split: sum.split)

lemma push_capacity: "capacity (snd (push b es)) = capacity b"
  by (simp add: push_def Let_def foldl_push_step_capacity split: sum.split)

lemma enqueue_capacity: "capacity (snd (enqueue b es)) = capacity b"
  by (simp add: enqueue_def Let_def foldl_enqueue_step_capacity split: sum.split)

lemma shift_empty_state: "elementCount b = 0 \<Longrightarrow> snd (shift b) = b"
  by (simp add: shift_def isEmpty_def size_cb_def checkRemovalLimitations_def)

lemma dequeue_empty_state: "elementCount b = 0 \<Longrightarrow> snd (dequeue b) = b"
  by (simp add: dequeue_def isEmpty_def size_cb_def checkRemovalLimitations_def)

lemma shift_bounds:
  assumes "bounds b"
  shows "bounds (snd (shift b))"
proof (cases "elementCount b = 0")
  case True
  with assms show ?thesis by (simp add: shift_empty_state)
next
  case False
  with assms have "0 < elementCount b" by (simp add: bounds_def)
  with assms show ?thesis by (rule shift_nonempty(3))
qed

lemma dequeue_bounds:
  assumes "bounds b"
  shows "bounds (snd (dequeue b))"
proof (cases "elementCount b = 0")
  case True
  with assms show ?thesis by (simp add: dequeue_empty_state)
next
  case False
  with assms have "0 < elementCount b" by (simp add: bounds_def)
  with assms show ?thesis by (rule dequeue_nonempty(3))
qed

lemma shift_capacity: "capacity (snd (shift b)) = capacity b"
  by (simp add: shift_def Let_def split: sum.split)

lemma dequeue_capacity: "capacity (snd (dequeue b)) = capacity b"
  by (simp add: dequeue_def Let_def split: sum.split)

lemma reachable_bounds: "reachable b \<Longrightarrow> bounds b"
  by (induction rule: reachable.induct)
    (simp_all add: new_bounds enqueue_bounds push_bounds shift_bounds dequeue_bounds pop_def)

text \<open>
  C7. A buffer constructed with a positive capacity satisfies \<open>0 \<le> count \<le> capacity\<close>
  and \<open>0 \<le> firstIndex < capacity\<close>, and \<open>enqueue\<close>, \<open>push\<close>, \<open>shift\<close>, \<open>dequeue\<close> and
  \<open>pop\<close> preserve both (whether they return or throw) and leave the capacity as it is. The
  queries and \<open>toArray\<close> assign no field; they are functions of the state here.
\<close>

theorem operations_preserve_bounds:
  "(0 < cap \<longrightarrow> bounds (new_CircularBuffer cap ow orm :: 'a CircularBuffer))
   \<and> (bounds (b :: 'a CircularBuffer) \<longrightarrow>
        bounds (snd (enqueue b es)) \<and> capacity (snd (enqueue b es)) = capacity b
        \<and> bounds (snd (push b es)) \<and> capacity (snd (push b es)) = capacity b
        \<and> bounds (snd (shift b)) \<and> capacity (snd (shift b)) = capacity b
        \<and> bounds (snd (dequeue b)) \<and> capacity (snd (dequeue b)) = capacity b
        \<and> bounds (snd (pop b)) \<and> capacity (snd (pop b)) = capacity b)"
  by (simp add: new_bounds enqueue_bounds push_bounds shift_bounds dequeue_bounds pop_def
      enqueue_capacity push_capacity shift_capacity dequeue_capacity)

theorem operations_preserve_bounds_witness:
  "0 < (3 :: int) \<and> bounds (new_CircularBuffer 3 False False :: nat CircularBuffer)
   \<and> bounds (snd (push (new_CircularBuffer 3 False False) [1 :: nat, 2]))
   \<and> bounds (snd (enqueue (new_CircularBuffer 3 False False) [1 :: nat, 2]))
   \<and> bounds (snd (shift (new_CircularBuffer 3 False False :: nat CircularBuffer)))
   \<and> bounds (snd (dequeue (new_CircularBuffer 3 False False :: nat CircularBuffer)))
   \<and> bounds (snd (pop (new_CircularBuffer 3 False False :: nat CircularBuffer)))"
proof -
  have b: "bounds (new_CircularBuffer 3 False False :: nat CircularBuffer)"
    by (simp add: bounds_def new_CircularBuffer_def)
  show ?thesis
    using b operations_preserve_bounds
      [of 3 False False "new_CircularBuffer 3 False False :: nat CircularBuffer" "[1, 2]"]
    by simp
qed

section \<open>First in, first out\<close>

lemma length_logical_sequence: "length (logical_sequence b) = nat (elementCount b)"
  by (simp add: logical_sequence_def length_ring)

lemma foldl_push_step_frame:
  "allowOverwrite (foldl push_step b es) = allowOverwrite b"
  "allowOverremove (foldl push_step b es) = allowOverremove b"
  by (induction es arbitrary: b) (simp_all add: push_step_frame)

lemma foldl_enqueue_step_frame:
  "allowOverwrite (foldl enqueue_step b es) = allowOverwrite b"
  "allowOverremove (foldl enqueue_step b es) = allowOverremove b"
  by (induction es arbitrary: b) (simp_all add: enqueue_step_frame)

lemma foldl_push_step_free:
  assumes "bounds b" "elementCount b + int (length es) \<le> capacity b"
  shows "logical_sequence (foldl push_step b es) = logical_sequence b @ map Some es
         \<and> elementCount (foldl push_step b es) = elementCount b + int (length es)"
  using assms
proof (induction es arbitrary: b)
  case Nil
  then show ?case by simp
next
  case (Cons e es)
  from Cons.prems have free: "elementCount b < capacity b" by simp
  note step = push_step_free [OF Cons.prems(1) free, of e]
  have "elementCount (push_step b e) + int (length es) \<le> capacity (push_step b e)"
    using Cons.prems(2) by (simp add: step(3) push_step_frame)
  from Cons.IH [OF step(2) this] show ?case
    by (simp add: step)
qed

lemma foldl_enqueue_step_free:
  assumes "bounds b" "elementCount b + int (length es) \<le> capacity b"
  shows "logical_sequence (foldl enqueue_step b es) = rev (map Some es) @ logical_sequence b
         \<and> elementCount (foldl enqueue_step b es) = elementCount b + int (length es)"
  using assms
proof (induction es arbitrary: b)
  case Nil
  then show ?case by simp
next
  case (Cons e es)
  from Cons.prems have free: "elementCount b < capacity b" by simp
  note step = enqueue_step_free [OF Cons.prems(1) free, of e]
  have "elementCount (enqueue_step b e) + int (length es) \<le> capacity (enqueue_step b e)"
    using Cons.prems(2) by (simp add: step(3) enqueue_step_frame)
  from Cons.IH [OF step(2) this] show ?case
    by (simp add: step)
qed

lemma freeSpace_exact:
  assumes "bounds b" "capacity b \<le> 2 ^ 53"
  shows "freeSpace b = capacity b - elementCount b"
proof -
  have "\<bar>capacity b - elementCount b\<bar> \<le> 2 ^ 53"
    using assms by (simp add: bounds_def)
  then show ?thesis
    by (simp add: freeSpace_def getCapacity_def size_cb_def f64_exact)
qed

lemma push_free:
  assumes "bounds b" "capacity b \<le> 2 ^ 53"
    "\<not> allowOverwrite b" "elementCount b + int (length es) \<le> capacity b"
  shows "push b es = (Inr (elementCount (foldl push_step b es)), foldl push_step b es)"
  using assms(3,4)
  by (simp add: push_def checkInsertionLimitations_def Let_def size_cb_def
      freeSpace_exact [OF assms(1,2)])

lemma enqueue_free:
  assumes "bounds b" "capacity b \<le> 2 ^ 53"
    "\<not> allowOverwrite b" "elementCount b + int (length es) \<le> capacity b"
  shows "enqueue b es = (Inr (elementCount (foldl enqueue_step b es)), foldl enqueue_step b es)"
  using assms(3,4)
  by (simp add: enqueue_def checkInsertionLimitations_def Let_def size_cb_def
      freeSpace_exact [OF assms(1,2)])

lemma push_calls_free:
  assumes "bounds b" "\<not> allowOverwrite b"
    "elementCount b + int (length (concat ess)) \<le> capacity b"
    "capacity b \<le> 2 ^ 53"
  shows "\<exists>b1. push_calls b ess = Inr b1 \<and> bounds b1
           \<and> logical_sequence b1 = logical_sequence b @ map Some (concat ess)
           \<and> elementCount b1 = elementCount b + int (length (concat ess))"
  using assms
proof (induction ess arbitrary: b)
  case Nil
  then show ?case by simp
next
  case (Cons es ess)
  let ?b1 = "foldl push_step b es"
  have fits: "elementCount b + int (length es) \<le> capacity b"
    using Cons.prems(3) by simp
  note call = push_free [OF Cons.prems(1) Cons.prems(4) Cons.prems(2) fits]
  note run = foldl_push_step_free [OF Cons.prems(1) fits]
  have b1: "bounds ?b1" "\<not> allowOverwrite ?b1"
    using Cons.prems by (simp_all add: foldl_push_step_bounds foldl_push_step_frame)
  have le: "elementCount ?b1 + int (length (concat ess)) \<le> capacity ?b1"
    using Cons.prems(3) run by (simp add: foldl_push_step_capacity)
  have cap: "capacity ?b1 \<le> 2 ^ 53"
    using Cons.prems(4) by (simp add: foldl_push_step_capacity)
  from Cons.IH [OF b1 le cap] obtain b2 where
    "push_calls ?b1 ess = Inr b2" "bounds b2"
    "logical_sequence b2 = logical_sequence ?b1 @ map Some (concat ess)"
    "elementCount b2 = elementCount ?b1 + int (length (concat ess))"
    by blast
  then show ?case
    using run by (simp add: call)
qed

lemma enqueue_calls_free:
  assumes "bounds b" "\<not> allowOverwrite b"
    "elementCount b + int (length (concat ess)) \<le> capacity b"
    "capacity b \<le> 2 ^ 53"
  shows "\<exists>b1. enqueue_calls b ess = Inr b1 \<and> bounds b1
           \<and> logical_sequence b1 = rev (map Some (concat ess)) @ logical_sequence b
           \<and> elementCount b1 = elementCount b + int (length (concat ess))"
  using assms
proof (induction ess arbitrary: b)
  case Nil
  then show ?case by simp
next
  case (Cons es ess)
  let ?b1 = "foldl enqueue_step b es"
  have fits: "elementCount b + int (length es) \<le> capacity b"
    using Cons.prems(3) by simp
  note call = enqueue_free [OF Cons.prems(1) Cons.prems(4) Cons.prems(2) fits]
  note run = foldl_enqueue_step_free [OF Cons.prems(1) fits]
  have b1: "bounds ?b1" "\<not> allowOverwrite ?b1"
    using Cons.prems by (simp_all add: foldl_enqueue_step_bounds foldl_enqueue_step_frame)
  have le: "elementCount ?b1 + int (length (concat ess)) \<le> capacity ?b1"
    using Cons.prems(3) run by (simp add: foldl_enqueue_step_capacity)
  have cap: "capacity ?b1 \<le> 2 ^ 53"
    using Cons.prems(4) by (simp add: foldl_enqueue_step_capacity)
  from Cons.IH [OF b1 le cap] obtain b2 where
    "enqueue_calls ?b1 ess = Inr b2" "bounds b2"
    "logical_sequence b2 = rev (map Some (concat ess)) @ logical_sequence ?b1"
    "elementCount b2 = elementCount ?b1 + int (length (concat ess))"
    by blast
  then show ?case
    using run by (simp add: call)
qed

lemma shift_times_all:
  assumes "bounds b" "elementCount b = int n"
  shows "\<exists>b2. shift_times n b = Inr (logical_sequence b, b2)"
  using assms
proof (induction n arbitrary: b)
  case 0
  then show ?case by (simp add: logical_sequence_def ring_def)
next
  case (Suc n)
  have pos: "0 < elementCount b" using Suc.prems(2) by simp
  obtain r b1 where call: "shift b = (r, b1)"
    by (cases "shift b")
  have sh: "r = Inr (hd (logical_sequence b))" "logical_sequence b1 = tl (logical_sequence b)"
    "bounds b1" "elementCount b1 = elementCount b - 1"
    using shift_nonempty [OF Suc.prems(1) pos] by (simp_all add: call)
  have "elementCount b1 = int n"
    using Suc.prems(2) by (simp add: sh(4))
  from Suc.IH [OF sh(3) this] obtain b2 where
    rest: "shift_times n b1 = Inr (tl (logical_sequence b), b2)"
    by (auto simp: sh(2))
  have "logical_sequence b \<noteq> []"
    using pos length_logical_sequence [of b] by auto
  then show ?case
    by (simp add: call sh(1) rest)
qed

lemma dequeue_times_all:
  assumes "bounds b" "elementCount b = int n"
  shows "\<exists>b2. dequeue_times n b = Inr (rev (logical_sequence b), b2)"
  using assms
proof (induction n arbitrary: b)
  case 0
  then show ?case by (simp add: logical_sequence_def ring_def)
next
  case (Suc n)
  have pos: "0 < elementCount b" using Suc.prems(2) by simp
  obtain r b1 where call: "dequeue b = (r, b1)"
    by (cases "dequeue b")
  have dq: "r = Inr (last (logical_sequence b))"
    "logical_sequence b1 = butlast (logical_sequence b)"
    "bounds b1" "elementCount b1 = elementCount b - 1"
    using dequeue_nonempty [OF Suc.prems(1) pos] by (simp_all add: call)
  have "elementCount b1 = int n"
    using Suc.prems(2) by (simp add: dq(4))
  from Suc.IH [OF dq(3) this] obtain b2 where
    rest: "dequeue_times n b1 = Inr (rev (butlast (logical_sequence b)), b2)"
    by (auto simp: dq(2))
  have "logical_sequence b \<noteq> []"
    using pos length_logical_sequence [of b] by auto
  then have "butlast (logical_sequence b) @ [last (logical_sequence b)] = logical_sequence b"
    by (rule append_butlast_last_id)
  then have "rev (butlast (logical_sequence b) @ [last (logical_sequence b)])
             = rev (logical_sequence b)"
    by (rule arg_cong)
  then have "last (logical_sequence b) # rev (butlast (logical_sequence b))
             = rev (logical_sequence b)"
    by simp
  then show ?case
    by (simp add: call dq(1) rest)
qed

lemmas run_defs = push_def enqueue_def shift_def dequeue_def pop_def push_step_def
  enqueue_step_def checkInsertionLimitations_def checkRemovalLimitations_def
  new_CircularBuffer_def wrapIndex_def js_rem_def smod_int_alt_def js_get_def js_set_def
  js_slice_def js_slice_from_def arePointersReversed_def toArray_def Let_def f64_def

lemma emptied_buffer:
  "snd (shift (snd (push (new_CircularBuffer 3 False False) [9 :: nat])))
   = \<lparr>firstIndex = 1, elementCount = 0, capacity = 3, buffer = [None],
       allowOverwrite = False, allowOverremove = False\<rparr>"
  by (simp add: run_defs query_defs)

text \<open>
  C5 states the property for every buffer with both flags off. It holds only from a
  buffer that holds no elements: after \<open>push(9)\<close> on a buffer of capacity 3, \<open>push(1)\<close>
  and one \<open>shift()\<close> return 9, not 1. It also needs index arithmetic that is exact in
  doubles: on a fresh buffer
  of capacity \<open>2^53 - 1\<close> the end index \<open>wrapIndex(firstIndex + elementCount)\<close> of the third
  push is 1, the slot of the second element.
\<close>

theorem push_then_shift_fifo_counterexample:
  "reachable (snd (push (new_CircularBuffer 3 False False) [9 :: int]))
   \<and> \<not> allowOverwrite (snd (push (new_CircularBuffer 3 False False) [9 :: int]))
   \<and> \<not> allowOverremove (snd (push (new_CircularBuffer 3 False False) [9 :: int]))
   \<and> int (length (concat [[1 :: int]]))
       \<le> getCapacity (snd (push (new_CircularBuffer 3 False False) [9 :: int]))
   \<and> push_then_shift (snd (push (new_CircularBuffer 3 False False) [9 :: int])) [[1]]
       = Inr [Some 9]
   \<and> push_then_shift (snd (push (new_CircularBuffer 3 False False) [9 :: int])) [[1]]
       \<noteq> Inr (map Some (concat [[1]]))
   \<and> wrapIndex_f64 (new_CircularBuffer 9007199254740991 False False :: int CircularBuffer) (0 + 1) = 1
   \<and> wrapIndex_f64 (new_CircularBuffer 9007199254740991 False False :: int CircularBuffer) (0 + 2) = 1"
proof -
  let ?b = "snd (push (new_CircularBuffer 3 False False) [9 :: int])"
  have r: "reachable ?b"
    by (intro reachable_push reachable_new) simp
  have s: "?b = \<lparr>firstIndex = 0, elementCount = 1, capacity = 3, buffer = [Some 9],
                 allowOverwrite = False, allowOverremove = False\<rparr>"
    by (simp add: run_defs query_defs)
  have run: "push_then_shift ?b [[1]] = Inr [Some 9]"
    by (simp add: s) (simp add: push_then_shift_def run_defs query_defs)
  have big: "wrapIndex_f64 (new_CircularBuffer 9007199254740991 False False :: int CircularBuffer) (0 + 1) = 1
          \<and> wrapIndex_f64 (new_CircularBuffer 9007199254740991 False False :: int CircularBuffer) (0 + 2) = 1"
    by (simp add: wrapIndex_f64_def new_CircularBuffer_def js_rem_def smod_int_alt_def
        f64_eval)
  show ?thesis
    using r run big by (simp add: s getCapacity_def)
qed

text \<open>
  C5, amended. On a buffer that holds no elements and has a capacity of at most \<open>2^52\<close>,
  with \<open>allowOverwrite = false\<close> and \<open>allowOverremove = false\<close>: pushing \<open>e1..en\<close> with
  \<open>n \<le> capacity\<close> (in one call, one call per element, or any split into calls) and then
  calling \<open>shift()\<close> \<open>n\<close> times throws nothing and returns \<open>e1..en\<close> in the order of
  insertion.
\<close>

theorem push_then_shift_fifo:
  assumes "reachable b" "isEmpty b" "\<not> allowOverwrite b" "\<not> allowOverremove b"
    "int (length (concat ess)) \<le> getCapacity b" "getCapacity b \<le> 2 ^ 52"
  shows "push_then_shift b ess = Inr (map Some (concat ess))"
proof -
  have b: "bounds b" using assms(1) by (rule reachable_bounds)
  have n: "elementCount b = 0" using assms(2) by (simp add: isEmpty_def size_cb_def)
  have fits: "elementCount b + int (length (concat ess)) \<le> capacity b"
    using assms(5) n by (simp add: getCapacity_def)
  have cap: "capacity b \<le> 2 ^ 53"
    using assms(6) by (simp add: getCapacity_def)
  from push_calls_free [OF b assms(3) fits cap] obtain b1 where
    b1: "push_calls b ess = Inr b1" "bounds b1"
    "logical_sequence b1 = logical_sequence b @ map Some (concat ess)"
    "elementCount b1 = elementCount b + int (length (concat ess))"
    by blast
  have "logical_sequence b = []"
    using n by (simp add: logical_sequence_def ring_def)
  then have seq: "logical_sequence b1 = map Some (concat ess)"
    using b1(3) by simp
  have "elementCount b1 = int (length (concat ess))"
    using b1(4) n by simp
  from shift_times_all [OF b1(2) this] obtain b2 where
    "shift_times (length (concat ess)) b1 = Inr (logical_sequence b1, b2)"
    by blast
  then show ?thesis
    by (simp add: push_then_shift_def b1(1) seq)
qed

theorem push_then_shift_fifo_witness:
  "reachable (snd (shift (snd (push (new_CircularBuffer 3 False False) [9 :: nat]))))
   \<and> isEmpty (snd (shift (snd (push (new_CircularBuffer 3 False False) [9 :: nat]))))
   \<and> getCapacity (snd (shift (snd (push (new_CircularBuffer 3 False False) [9 :: nat]))))
       \<le> 2 ^ 52
   \<and> push_then_shift (snd (shift (snd (push (new_CircularBuffer 3 False False) [9 :: nat]))))
         [[1, 2], [3]] = Inr [Some 1, Some 2, Some 3]"
proof -
  let ?b = "snd (shift (snd (push (new_CircularBuffer 3 False False) [9 :: nat])))"
  have r: "reachable ?b"
    by (intro reachable_shift reachable_push reachable_new) simp
  have e: "isEmpty ?b" and w: "\<not> allowOverwrite ?b" and m: "\<not> allowOverremove ?b"
    and c: "int (length (concat [[1, 2], [3 :: nat]])) \<le> getCapacity ?b"
    and k: "getCapacity ?b \<le> 2 ^ 52"
    by (simp_all add: emptied_buffer query_defs)
  show ?thesis
    using r e k push_then_shift_fifo [OF r e w m c k] by simp
qed

text \<open>
  C6 states the property for every buffer with both flags off. It holds only from a
  buffer that holds no elements: after \<open>enqueue(9)\<close> on a buffer of capacity 3, \<open>enqueue(1)\<close>
  and one \<open>dequeue()\<close> return 9, not 1. It also needs index arithmetic that is exact in
  doubles: on a fresh buffer
  of capacity \<open>2^53 - 1\<close> the new first index \<open>wrapIndex(firstIndex - 1)\<close> of the third
  enqueue equals that of the second.
\<close>

theorem enqueue_then_dequeue_fifo_counterexample:
  "reachable (snd (enqueue (new_CircularBuffer 3 False False) [9 :: int]))
   \<and> \<not> allowOverwrite (snd (enqueue (new_CircularBuffer 3 False False) [9 :: int]))
   \<and> \<not> allowOverremove (snd (enqueue (new_CircularBuffer 3 False False) [9 :: int]))
   \<and> int (length (concat [[1 :: int]]))
       \<le> getCapacity (snd (enqueue (new_CircularBuffer 3 False False) [9 :: int]))
   \<and> enqueue_then_dequeue (snd (enqueue (new_CircularBuffer 3 False False) [9 :: int])) [[1]]
       = Inr [Some 9]
   \<and> enqueue_then_dequeue (snd (enqueue (new_CircularBuffer 3 False False) [9 :: int])) [[1]]
       \<noteq> Inr (map Some (concat [[1]]))
   \<and> wrapIndex_f64 (new_CircularBuffer 9007199254740991 False False :: int CircularBuffer) (9007199254740989 - 1) = 9007199254740989
   \<and> wrapIndex_f64 (new_CircularBuffer 9007199254740991 False False :: int CircularBuffer) (9007199254740990 - 1) = 9007199254740989"
proof -
  let ?b = "snd (enqueue (new_CircularBuffer 3 False False) [9 :: int])"
  have r: "reachable ?b"
    by (intro reachable_enqueue reachable_new) simp
  have s: "?b = \<lparr>firstIndex = 2, elementCount = 1, capacity = 3,
                 buffer = [None, None, Some 9],
                 allowOverwrite = False, allowOverremove = False\<rparr>"
    by (simp add: run_defs query_defs eval_nat_numeral)
  have run: "enqueue_then_dequeue ?b [[1]] = Inr [Some 9]"
    by (simp add: s) (simp add: enqueue_then_dequeue_def run_defs query_defs)
  have big: "wrapIndex_f64 (new_CircularBuffer 9007199254740991 False False :: int CircularBuffer) (9007199254740989 - 1) = 9007199254740989
          \<and> wrapIndex_f64 (new_CircularBuffer 9007199254740991 False False :: int CircularBuffer) (9007199254740990 - 1) = 9007199254740989"
    by (simp add: wrapIndex_f64_def new_CircularBuffer_def js_rem_def smod_int_alt_def
        f64_eval)
  show ?thesis
    using r run big by (simp add: s getCapacity_def)
qed

text \<open>
  C6, amended. On a buffer that holds no elements and has a capacity of at most \<open>2^52\<close>,
  with \<open>allowOverwrite = false\<close> and \<open>allowOverremove = false\<close>: enqueueing \<open>e1..en\<close> with
  \<open>n \<le> capacity\<close> (in one call, one call per element, or any split into calls) and then
  calling \<open>dequeue()\<close> \<open>n\<close> times throws nothing and returns \<open>e1..en\<close> in the order of
  insertion.
\<close>

theorem enqueue_then_dequeue_fifo:
  assumes "reachable b" "isEmpty b" "\<not> allowOverwrite b" "\<not> allowOverremove b"
    "int (length (concat ess)) \<le> getCapacity b" "getCapacity b \<le> 2 ^ 52"
  shows "enqueue_then_dequeue b ess = Inr (map Some (concat ess))"
proof -
  have b: "bounds b" using assms(1) by (rule reachable_bounds)
  have n: "elementCount b = 0" using assms(2) by (simp add: isEmpty_def size_cb_def)
  have fits: "elementCount b + int (length (concat ess)) \<le> capacity b"
    using assms(5) n by (simp add: getCapacity_def)
  have cap: "capacity b \<le> 2 ^ 53"
    using assms(6) by (simp add: getCapacity_def)
  from enqueue_calls_free [OF b assms(3) fits cap] obtain b1 where
    b1: "enqueue_calls b ess = Inr b1" "bounds b1"
    "logical_sequence b1 = rev (map Some (concat ess)) @ logical_sequence b"
    "elementCount b1 = elementCount b + int (length (concat ess))"
    by blast
  have "logical_sequence b = []"
    using n by (simp add: logical_sequence_def ring_def)
  then have seq: "rev (logical_sequence b1) = map Some (concat ess)"
    using b1(3) by simp
  have "elementCount b1 = int (length (concat ess))"
    using b1(4) n by simp
  from dequeue_times_all [OF b1(2) this] obtain b2 where
    "dequeue_times (length (concat ess)) b1 = Inr (rev (logical_sequence b1), b2)"
    by blast
  then show ?thesis
    by (simp add: enqueue_then_dequeue_def b1(1) seq)
qed

theorem enqueue_then_dequeue_fifo_witness:
  "reachable (snd (shift (snd (push (new_CircularBuffer 3 False False) [9 :: nat]))))
   \<and> isEmpty (snd (shift (snd (push (new_CircularBuffer 3 False False) [9 :: nat]))))
   \<and> getCapacity (snd (shift (snd (push (new_CircularBuffer 3 False False) [9 :: nat]))))
       \<le> 2 ^ 52
   \<and> enqueue_then_dequeue (snd (shift (snd (push (new_CircularBuffer 3 False False) [9 :: nat]))))
         [[1], [2, 3]] = Inr [Some 1, Some 2, Some 3]"
proof -
  let ?b = "snd (shift (snd (push (new_CircularBuffer 3 False False) [9 :: nat])))"
  have r: "reachable ?b"
    by (intro reachable_shift reachable_push reachable_new) simp
  have e: "isEmpty ?b" and w: "\<not> allowOverwrite ?b" and m: "\<not> allowOverremove ?b"
    and c: "int (length (concat [[1], [2, 3 :: nat]])) \<le> getCapacity ?b"
    and k: "getCapacity ?b \<le> 2 ^ 52"
    by (simp_all add: emptied_buffer query_defs)
  show ?thesis
    using r e k enqueue_then_dequeue_fifo [OF r e w m c k] by simp
qed

section \<open>The backing array\<close>

text \<open>
  The array only ever grows up to the capacity, and the occupied slots are inside it; so
  the array of a full buffer has exactly \<open>capacity\<close> elements.
\<close>

lemma store_okI:
  assumes "int (length (buffer b)) \<le> capacity b"
    "\<And>i. i < nat (elementCount b) \<Longrightarrow>
       (firstIndex b + int i) mod capacity b < int (length (buffer b))"
  shows "store_ok b"
  using assms by (simp add: store_ok_def)

lemma store_okD:
  assumes "store_ok b"
  shows "int (length (buffer b)) \<le> capacity b"
    and "i < nat (elementCount b) \<Longrightarrow>
       (firstIndex b + int i) mod capacity b < int (length (buffer b))"
  using assms by (simp_all add: store_ok_def)

lemma length_js_set_cases:
  assumes "0 \<le> g"
  shows "int (length (js_set xs g v)) = max (int (length xs)) (g + 1)"
proof -
  from assms obtain k where k: "g = int k" using nonneg_int_cases [of g] by auto
  show ?thesis unfolding k by (simp add: length_js_set)
qed

lemma new_store_ok: "0 < cap \<Longrightarrow> store_ok (new_CircularBuffer cap ow orm)"
  by (simp add: store_ok_def new_CircularBuffer_def)

lemma full_length:
  assumes "bounds b" "store_ok b" "elementCount b = capacity b"
  shows "int (length (buffer b)) = capacity b"
proof -
  let ?c = "capacity b" and ?f = "firstIndex b"
  have f: "0 \<le> ?f" "?f < ?c" using assms(1) by (simp_all add: bounds_def)
  have "nat (?c - 1 - ?f) < nat (elementCount b)"
    using f assms(3) by simp
  from store_okD(2) [OF assms(2) this]
  have slot: "(?f + int (nat (?c - 1 - ?f))) mod ?c < int (length (buffer b))" .
  have idx: "?f + int (nat (?c - 1 - ?f)) = ?c - 1"
    using f by simp
  have "(?c - 1) mod ?c = ?c - 1"
    using f by (intro mod_pos_pos_trivial) simp_all
  with slot have "?c - 1 < int (length (buffer b))"
    by (simp only: idx)
  with store_okD(1) [OF assms(2)] show ?thesis by simp
qed

lemma push_step_store_ok:
  assumes "bounds b" "store_ok b"
  shows "store_ok (push_step b e)"
  using assms(1)
proof (cases rule: bounds_cases)
  case free
  let ?c = "capacity b" and ?g = "(firstIndex b + elementCount b) mod capacity b"
  have c: "0 < ?c" and n: "0 \<le> elementCount b"
    using assms(1) by (simp_all add: bounds_def)
  have g: "0 \<le> ?g" "?g < ?c" using c by simp_all
  note len = length_js_set_cases [OF g(1), of "buffer b" "Some e"]
  show ?thesis
  proof (rule store_okI)
    show "int (length (buffer (push_step b e))) \<le> capacity (push_step b e)"
      using store_okD(1) [OF assms(2)] g
      by (simp add: push_step_free_eq [OF assms(1) free] len)
  next
    fix i assume "i < nat (elementCount (push_step b e))"
    then have i: "i < nat (elementCount b) \<or> int i = elementCount b"
      using n by (auto simp: push_step_free_eq [OF assms(1) free])
    then show "(firstIndex (push_step b e) + int i) mod capacity (push_step b e)
               < int (length (buffer (push_step b e)))"
    proof
      assume "i < nat (elementCount b)"
      from store_okD(2) [OF assms(2) this] show ?thesis
        by (simp add: push_step_free_eq [OF assms(1) free] len)
    next
      assume "int i = elementCount b"
      then show ?thesis
        by (simp add: push_step_free_eq [OF assms(1) free] len)
    qed
  qed
next
  case full
  let ?c = "capacity b" and ?f = "firstIndex b"
  have c: "0 < ?c" and f: "0 \<le> ?f" "?f < ?c"
    using assms(1) by (simp_all add: bounds_def)
  note fl = full_length [OF assms full]
  have len: "int (length (js_set (buffer b) ?f (Some e))) = ?c"
    using f fl by (simp add: length_js_set_cases)
  show ?thesis
    using c by (simp add: store_ok_def push_step_full_eq [OF assms(1) full] len)
qed

lemma enqueue_step_store_ok:
  assumes "bounds b" "store_ok b"
  shows "store_ok (enqueue_step b e)"
  using assms(1)
proof (cases rule: bounds_cases)
  case free
  let ?c = "capacity b" and ?g = "(firstIndex b - 1) mod capacity b"
  have c: "0 < ?c" and n: "0 \<le> elementCount b"
    using assms(1) by (simp_all add: bounds_def)
  have g: "0 \<le> ?g" "?g < ?c" using c by simp_all
  note len = length_js_set_cases [OF g(1), of "buffer b" "Some e"]
  note eq = enqueue_step_free_eq [OF assms(1) free]
  show ?thesis
  proof (rule store_okI)
    show "int (length (buffer (enqueue_step b e))) \<le> capacity (enqueue_step b e)"
      using store_okD(1) [OF assms(2)] g by (simp add: eq len)
  next
    fix i assume i: "i < nat (elementCount (enqueue_step b e))"
    show "(firstIndex (enqueue_step b e) + int i) mod capacity (enqueue_step b e)
               < int (length (buffer (enqueue_step b e)))"
    proof (cases i)
      case 0
      then show ?thesis using g by (simp add: eq len)
    next
      case (Suc k)
      with i n have "k < nat (elementCount b)" by (simp add: eq)
      from store_okD(2) [OF assms(2) this]
      have "(firstIndex b + int k) mod ?c < int (length (buffer b))" .
      moreover have "(?g + int (Suc k)) mod ?c = (firstIndex b + int k) mod ?c"
        by (simp add: mod_add_left_eq)
      ultimately show ?thesis
        by (simp only: eq Suc) (simp add: len)
    qed
  qed
next
  case full
  let ?c = "capacity b" and ?g = "(firstIndex b - 1) mod capacity b"
  have c: "0 < ?c"
    using assms(1) by (simp add: bounds_def)
  have g: "0 \<le> ?g" "?g < ?c" using c by simp_all
  note fl = full_length [OF assms full]
  have len: "int (length (js_set (buffer b) ?g (Some e))) = ?c"
    using g fl by (simp add: length_js_set_cases)
  show ?thesis
    using c by (simp add: store_ok_def enqueue_step_full_eq [OF assms(1) full] len)
qed

lemma shift_store_ok:
  assumes "bounds b" "store_ok b"
  shows "store_ok (snd (shift b))"
proof (cases "elementCount b = 0")
  case True
  with assms show ?thesis by (simp add: shift_empty_state)
next
  case False
  with assms have pos: "0 < elementCount b" by (simp add: bounds_def)
  let ?c = "capacity b" and ?f = "firstIndex b"
  have f: "0 \<le> ?f" "?f < ?c" "?f mod ?c = ?f"
    using assms(1) by (simp_all add: bounds_def)
  note eq = shift_nonempty_eq [OF assms(1) pos]
  have "0 < nat (elementCount b)" using pos by simp
  from store_okD(2) [OF assms(2) this] have "?f < int (length (buffer b))"
    using f by simp
  then have len: "int (length (js_set (buffer b) ?f None)) = int (length (buffer b))"
    using f by (simp add: length_js_set_cases)
  show ?thesis
  proof (rule store_okI)
    show "int (length (buffer (snd (shift b)))) \<le> capacity (snd (shift b))"
      using store_okD(1) [OF assms(2)] by (simp add: eq len)
  next
    fix i assume "i < nat (elementCount (snd (shift b)))"
    then have "Suc i < nat (elementCount b)" by (simp add: eq)
    from store_okD(2) [OF assms(2) this]
    have "(?f + int (Suc i)) mod ?c < int (length (buffer b))" .
    moreover have "((?f + 1) mod ?c + int i) mod ?c = (?f + int (Suc i)) mod ?c"
      by (simp add: mod_add_left_eq add.assoc)
    ultimately show "(firstIndex (snd (shift b)) + int i) mod capacity (snd (shift b))
               < int (length (buffer (snd (shift b))))"
      by (simp only: eq) (simp add: len)
  qed
qed

lemma dequeue_store_ok:
  assumes "bounds b" "store_ok b"
  shows "store_ok (snd (dequeue b))"
proof (cases "elementCount b = 0")
  case True
  with assms show ?thesis by (simp add: dequeue_empty_state)
next
  case False
  with assms have pos: "0 < elementCount b" by (simp add: bounds_def)
  let ?c = "capacity b" and ?f = "firstIndex b"
  let ?g = "(?f + (elementCount b - 1)) mod ?c"
  have c: "0 < ?c" using assms(1) by (simp add: bounds_def)
  note eq = dequeue_nonempty_eq [OF assms(1) pos]
  have "nat (elementCount b - 1) < nat (elementCount b)" using pos by simp
  from store_okD(2) [OF assms(2) this] have "?g < int (length (buffer b))"
    using pos by simp
  then have len: "int (length (js_set (buffer b) ?g None)) = int (length (buffer b))"
    using c by (simp add: length_js_set_cases)
  show ?thesis
  proof (rule store_okI)
    show "int (length (buffer (snd (dequeue b)))) \<le> capacity (snd (dequeue b))"
      using store_okD(1) [OF assms(2)] by (simp add: eq len)
  next
    fix i assume "i < nat (elementCount (snd (dequeue b)))"
    then have "i < nat (elementCount b)" by (simp add: eq)
    from store_okD(2) [OF assms(2) this]
    show "(firstIndex (snd (dequeue b)) + int i) mod capacity (snd (dequeue b))
               < int (length (buffer (snd (dequeue b))))"
      by (simp add: eq len)
  qed
qed

lemma foldl_push_step_store_ok:
  "bounds b \<Longrightarrow> store_ok b \<Longrightarrow> store_ok (foldl push_step b es)"
  by (induction es arbitrary: b) (simp_all add: push_step_bounds push_step_store_ok)

lemma foldl_enqueue_step_store_ok:
  "bounds b \<Longrightarrow> store_ok b \<Longrightarrow> store_ok (foldl enqueue_step b es)"
  by (induction es arbitrary: b) (simp_all add: enqueue_step_bounds enqueue_step_store_ok)

lemma push_store_ok: "bounds b \<Longrightarrow> store_ok b \<Longrightarrow> store_ok (snd (push b es))"
  by (simp add: push_def Let_def foldl_push_step_store_ok split: sum.split)

lemma enqueue_store_ok: "bounds b \<Longrightarrow> store_ok b \<Longrightarrow> store_ok (snd (enqueue b es))"
  by (simp add: enqueue_def Let_def foldl_enqueue_step_store_ok split: sum.split)

lemma reachable_store_ok: "reachable b \<Longrightarrow> store_ok b"
  by (induction rule: reachable.induct)
    (simp_all add: new_store_ok enqueue_store_ok push_store_ok shift_store_ok
      dequeue_store_ok pop_def reachable_bounds)

section \<open>Overwriting a full buffer\<close>

lemma ring_whole:
  assumes "k < length xs"
  shows "ring xs (int (length xs)) (int k) (length xs) = drop k xs @ take k xs"
proof -
  have "ring xs (int (length xs)) (int k) (length xs) = rotate k xs"
  proof (rule nth_equalityI)
    show "length (ring xs (int (length xs)) (int k) (length xs)) = length (rotate k xs)"
      by (simp add: length_ring)
  next
    fix i assume "i < length (ring xs (int (length xs)) (int k) (length xs))"
    then have i: "i < length xs" by (simp add: length_ring)
    have "(int k + int i) mod int (length xs) = int ((k + i) mod length xs)"
      by (simp add: zmod_int)
    moreover have "(k + i) mod length xs < length xs"
    proof (rule mod_less_divisor)
      show "0 < length xs" using i by linarith
    qed
    ultimately have "js_get xs ((int k + int i) mod int (length xs))
                     = xs ! ((k + i) mod length xs)"
      by (simp only: js_get_int if_True)
    then show "ring xs (int (length xs)) (int k) (length xs) ! i = rotate k xs ! i"
      using i by (simp add: ring_def nth_rotate)
  qed
  also have "\<dots> = drop k xs @ take k xs"
    using assms by (simp add: rotate_drop_take)
  finally show ?thesis .
qed

lemma toArray_full:
  assumes "bounds b" "elementCount b = capacity b" "int (length (buffer b)) = capacity b"
  shows "toArray b = logical_sequence b"
proof -
  let ?xs = "buffer b" and ?c = "capacity b" and ?f = "firstIndex b"
  have c: "0 < ?c" and f: "0 \<le> ?f" "?f < ?c"
    using assms(1) by (simp_all add: bounds_def)
  from f(1) obtain k where k: "?f = int k" using nonneg_int_cases [of ?f] by auto
  have kl: "k < length ?xs" using f(2) k assms(3) by simp
  have endi: "getEndIndex b = ?f"
    using f by (simp add: getEndIndex_def wrapIndex_mod c assms(2))
  have log: "logical_sequence b = drop k ?xs @ take k ?xs"
    using ring_whole [OF kl] by (simp add: logical_sequence_def assms(2) k flip: assms(3))
  show ?thesis
  proof (cases "k = 0")
    case True
    have "\<not> (- 1) mod ?c < 0"
      using pos_mod_sign [OF c, of "- 1"] by linarith
    with True have "\<not> arePointersReversed b"
      using c by (simp add: arePointersReversed_def endi wrapIndex_mod k)
    then show ?thesis
      using True by (simp add: toArray_def log js_slice_def size_cb_def assms(2) k
          flip: assms(3))
  next
    case False
    then have "(?f - 1) mod ?c = ?f - 1"
      using f k by (intro mod_pos_pos_trivial) simp_all
    then have "arePointersReversed b"
      by (simp add: arePointersReversed_def endi wrapIndex_mod c)
    then show ?thesis
      using kl by (simp add: toArray_def log js_slice_def js_slice_from_def endi k)
  qed
qed

lemma js_slice_from_single: "0 < c \<Longrightarrow> js_slice_from [e] (- c) = [e]"
  by (simp add: js_slice_from_def js_slice_def)

lemma push_single_full:
  assumes "bounds b" "allowOverwrite b"
  shows "push b [e] = (Inr (elementCount (push_step b e)), push_step b e)"
  using assms
  by (simp add: push_def checkInsertionLimitations_def Let_def size_cb_def getCapacity_def
      js_slice_from_single bounds_capacity)

lemma enqueue_single_full:
  assumes "bounds b" "allowOverwrite b"
  shows "enqueue b [e] = (Inr (elementCount (enqueue_step b e)), enqueue_step b e)"
  using assms
  by (simp add: enqueue_def checkInsertionLimitations_def Let_def size_cb_def getCapacity_def
      js_slice_from_single bounds_capacity)

lemma filled_buffer:
  "snd (push (new_CircularBuffer 4 True False) [1 :: int, 2, 3, 4])
   = \<lparr>firstIndex = 0, elementCount = 4, capacity = 4,
       buffer = [Some 1, Some 2, Some 3, Some 4],
       allowOverwrite = True, allowOverremove = False\<rparr>"
  by (simp add: run_defs query_defs)

text \<open>
  C2. On a full buffer with \<open>allowOverwrite = true\<close>, inserting one element keeps
  \<open>size()\<close> at the capacity and evicts the element at the other end: \<open>push(e)\<close> drops
  the front element of \<open>toArray()\<close> and appends \<open>e\<close> at the back, \<open>enqueue(e)\<close> drops the
  back element and puts \<open>e\<close> at the front. On a buffer of capacity 4 with
  \<open>allowOverwrite = true\<close>, \<open>push(1,2,3,4)\<close> then \<open>push(5)\<close> gives \<open>toArray() = [2,3,4,5]\<close>.
\<close>

theorem overwrite_evicts_opposite_end:
  "(reachable b \<and> isFull b \<and> allowOverwrite b \<longrightarrow>
      length (toArray b) = nat (getCapacity b)
      \<and> fst (push b [e]) = Inr (getCapacity b)
      \<and> size_cb (snd (push b [e])) = getCapacity b
      \<and> toArray (snd (push b [e])) = tl (toArray b) @ [Some e]
      \<and> fst (enqueue b [e]) = Inr (getCapacity b)
      \<and> size_cb (snd (enqueue b [e])) = getCapacity b
      \<and> toArray (snd (enqueue b [e])) = Some e # butlast (toArray b))
   \<and> toArray (snd (push (snd (push (new_CircularBuffer 4 True False) [1 :: int, 2, 3, 4])) [5]))
       = [Some 2, Some 3, Some 4, Some 5]"
proof (intro conjI impI)
  assume h: "reachable b \<and> isFull b \<and> allowOverwrite b"
  then have b: "bounds b" and s: "store_ok b" and ow: "allowOverwrite b"
    by (simp_all add: reachable_bounds reachable_store_ok)
  have full: "elementCount b = capacity b"
    using h b by (simp add: isFull_def size_cb_def getCapacity_def bounds_def)
  note len = full_length [OF b s full]
  note arr = toArray_full [OF b full len]
  note p = push_step_full [OF b full, of e] and q = enqueue_step_full [OF b full, of e]
  have parr: "toArray (push_step b e) = logical_sequence (push_step b e)"
    using full_length [OF p(2) push_step_store_ok [OF b s]] p(3) full
    by (intro toArray_full p(2)) (simp_all add: push_step_frame)
  have qarr: "toArray (enqueue_step b e) = logical_sequence (enqueue_step b e)"
    using full_length [OF q(2) enqueue_step_store_ok [OF b s]] q(3) full
    by (intro toArray_full q(2)) (simp_all add: enqueue_step_frame)
  show "length (toArray b) = nat (getCapacity b)"
    by (simp add: arr length_logical_sequence full getCapacity_def)
  show "fst (push b [e]) = Inr (getCapacity b)"
    by (simp add: push_single_full [OF b ow] p(3) full getCapacity_def)
  show "size_cb (snd (push b [e])) = getCapacity b"
    by (simp add: push_single_full [OF b ow] p(3) full getCapacity_def size_cb_def)
  show "toArray (snd (push b [e])) = tl (toArray b) @ [Some e]"
    by (simp add: push_single_full [OF b ow] parr p(1) arr)
  show "fst (enqueue b [e]) = Inr (getCapacity b)"
    by (simp add: enqueue_single_full [OF b ow] q(3) full getCapacity_def)
  show "size_cb (snd (enqueue b [e])) = getCapacity b"
    by (simp add: enqueue_single_full [OF b ow] q(3) full getCapacity_def size_cb_def)
  show "toArray (snd (enqueue b [e])) = Some e # butlast (toArray b)"
    by (simp add: enqueue_single_full [OF b ow] qarr q(1) arr)
next
  show "toArray (snd (push (snd (push (new_CircularBuffer 4 True False) [1 :: int, 2, 3, 4])) [5]))
       = [Some 2, Some 3, Some 4, Some 5]"
    by (simp add: run_defs query_defs)
qed

theorem overwrite_evicts_opposite_end_witness:
  "reachable (snd (push (new_CircularBuffer 4 True False) [1 :: int, 2, 3, 4]))
   \<and> isFull (snd (push (new_CircularBuffer 4 True False) [1 :: int, 2, 3, 4]))
   \<and> allowOverwrite (snd (push (new_CircularBuffer 4 True False) [1 :: int, 2, 3, 4]))
   \<and> toArray (snd (push (snd (push (new_CircularBuffer 4 True False) [1 :: int, 2, 3, 4])) [5]))
       = [Some 2, Some 3, Some 4, Some 5]
   \<and> toArray (snd (enqueue (snd (push (new_CircularBuffer 4 True False) [1 :: int, 2, 3, 4])) [5]))
       = [Some 5, Some 1, Some 2, Some 3]
   \<and> size_cb (snd (enqueue (snd (push (new_CircularBuffer 4 True False) [1 :: int, 2, 3, 4])) [5]))
       = 4"
proof -
  let ?b = "snd (push (new_CircularBuffer 4 True False) [1 :: int, 2, 3, 4])"
  have r: "reachable ?b"
    by (intro reachable_push reachable_new) simp
  have f: "isFull ?b" and w: "allowOverwrite ?b" and c: "getCapacity ?b = 4"
    by (simp_all add: filled_buffer query_defs)
  have a: "toArray ?b = [Some 1, Some 2, Some 3, Some 4]"
    by (simp add: filled_buffer) (simp add: run_defs query_defs)
  show ?thesis
    using r f w c a overwrite_evicts_opposite_end [of ?b 5] by simp
qed

section \<open>Materialising the buffer\<close>

text \<open>
  C1 states that \<open>toArray()\<close> returns the logical sequence in every reachable state, and
  that without wraparound this is the slice of \<open>size()\<close> elements starting at
  \<open>firstIndex\<close>. The method passes \<open>size()\<close> as the end index of \<open>slice\<close>, not as a count:
  after \<open>push(1,2,3)\<close> and \<open>shift()\<close> on a buffer of capacity 4 the buffer holds 2 and 3
  (\<open>firstIndex = 1\<close>, \<open>size() = 2\<close>, no wraparound) and \<open>toArray()\<close> returns \<open>[2]\<close>.
\<close>

theorem toArray_end_index_slip:
  "reachable (snd (shift (snd (push (new_CircularBuffer 4 False False) [1 :: int, 2, 3]))))
   \<and> \<not> arePointersReversed
         (snd (shift (snd (push (new_CircularBuffer 4 False False) [1 :: int, 2, 3]))))
   \<and> firstIndex (snd (shift (snd (push (new_CircularBuffer 4 False False) [1 :: int, 2, 3]))))
       = 1
   \<and> size_cb (snd (shift (snd (push (new_CircularBuffer 4 False False) [1 :: int, 2, 3]))))
       = 2
   \<and> logical_sequence
         (snd (shift (snd (push (new_CircularBuffer 4 False False) [1 :: int, 2, 3]))))
       = [Some 2, Some 3]
   \<and> toArray (snd (shift (snd (push (new_CircularBuffer 4 False False) [1 :: int, 2, 3]))))
       = [Some 2]"
proof -
  let ?b = "snd (shift (snd (push (new_CircularBuffer 4 False False) [1 :: int, 2, 3])))"
  have r: "reachable ?b"
    by (intro reachable_shift reachable_push reachable_new) simp
  have s: "?b = \<lparr>firstIndex = 1, elementCount = 2, capacity = 4,
                 buffer = [None, Some 2, Some 3],
                 allowOverwrite = False, allowOverremove = False\<rparr>"
    by (simp add: run_defs query_defs)
  have "logical_sequence ?b = [Some 2, Some 3]"
    by (simp add: s) (simp add: logical_sequence_def ring_def js_get_def upt_rec)
  moreover have "toArray ?b = [Some 2] \<and> \<not> arePointersReversed ?b"
    by (simp add: s) (simp add: run_defs query_defs)
  ultimately show ?thesis
    using r by (simp add: s size_cb_def)
qed

section \<open>Queries, error policy and the option holder\<close>

text \<open>
  C8 states the relation for every reachable state. \<open>freeSpace()\<close> is a double
  subtraction: after \<open>push(1)\<close> on a buffer of capacity \<open>2^53 + 2\<close> it returns \<open>2^53\<close>, and
  \<open>size() + freeSpace()\<close> (exact, or added as doubles) is not the capacity.
\<close>

theorem size_plus_freeSpace_counterexample:
  "reachable (snd (push (new_CircularBuffer 9007199254740994 False False) [1 :: int]))
   \<and> size_cb (snd (push (new_CircularBuffer 9007199254740994 False False) [1 :: int])) = 1
   \<and> freeSpace (snd (push (new_CircularBuffer 9007199254740994 False False) [1 :: int]))
       = 9007199254740992
   \<and> getCapacity (snd (push (new_CircularBuffer 9007199254740994 False False) [1 :: int]))
       = 9007199254740994
   \<and> size_cb (snd (push (new_CircularBuffer 9007199254740994 False False) [1 :: int]))
       + freeSpace (snd (push (new_CircularBuffer 9007199254740994 False False) [1 :: int]))
       \<noteq> getCapacity (snd (push (new_CircularBuffer 9007199254740994 False False) [1 :: int]))
   \<and> f64 (size_cb (snd (push (new_CircularBuffer 9007199254740994 False False) [1 :: int]))
       + freeSpace (snd (push (new_CircularBuffer 9007199254740994 False False) [1 :: int])))
       \<noteq> getCapacity (snd (push (new_CircularBuffer 9007199254740994 False False) [1 :: int]))"
proof -
  let ?b = "snd (push (new_CircularBuffer 9007199254740994 False False) [1 :: int])"
  have r: "reachable ?b"
    by (intro reachable_push reachable_new) simp
  have s: "?b = \<lparr>firstIndex = 0, elementCount = 1, capacity = 9007199254740994,
                 buffer = [Some 1], allowOverwrite = False, allowOverremove = False\<rparr>"
    by (simp add: run_defs query_defs bit_length.simps)
  have f: "freeSpace ?b = 9007199254740992"
    by (simp add: s) (simp add: freeSpace_def getCapacity_def size_cb_def f64_eval)
  show ?thesis
    using r by (simp add: f) (simp add: s getCapacity_def size_cb_def f64_eval)
qed

text \<open>
  C8, amended. In every state that satisfies the invariants (every reachable state does)
  and has a capacity of at most \<open>2^53\<close>, \<open>size() + freeSpace()\<close> equals \<open>getCapacity()\<close>,
  the sum taken exactly or as a double.
\<close>

theorem size_plus_freeSpace:
  "(bounds b \<and> getCapacity b \<le> 2 ^ 53 \<longrightarrow>
      size_cb b + freeSpace b = getCapacity b
      \<and> f64 (size_cb b + freeSpace b) = getCapacity b)
   \<and> (reachable b \<and> getCapacity b \<le> 2 ^ 53 \<longrightarrow>
      size_cb b + freeSpace b = getCapacity b
      \<and> f64 (size_cb b + freeSpace b) = getCapacity b)"
proof -
  have main: "size_cb b + freeSpace b = getCapacity b
              \<and> f64 (size_cb b + freeSpace b) = getCapacity b"
    if b: "bounds b" and c: "getCapacity b \<le> 2 ^ 53"
  proof -
    have cap: "capacity b \<le> 2 ^ 53" "0 < capacity b"
      using b c by (simp_all add: getCapacity_def bounds_def)
    have sum: "size_cb b + freeSpace b = getCapacity b"
      by (simp add: freeSpace_exact [OF b cap(1)] size_cb_def getCapacity_def)
    moreover have "f64 (getCapacity b) = getCapacity b"
      using cap by (intro f64_exact) (simp add: getCapacity_def)
    ultimately show ?thesis by simp
  qed
  show ?thesis
    using main reachable_bounds by blast
qed

theorem size_plus_freeSpace_witness:
  "reachable (snd (push (new_CircularBuffer 4 True False) [1 :: int, 2, 3, 4]))
   \<and> bounds (snd (push (new_CircularBuffer 4 True False) [1 :: int, 2, 3, 4]))
   \<and> getCapacity (snd (push (new_CircularBuffer 4 True False) [1 :: int, 2, 3, 4])) \<le> 2 ^ 53
   \<and> size_cb (snd (push (new_CircularBuffer 4 True False) [1 :: int, 2, 3, 4]))
       + freeSpace (snd (push (new_CircularBuffer 4 True False) [1 :: int, 2, 3, 4]))
       = 4"
proof -
  let ?b = "snd (push (new_CircularBuffer 4 True False) [1 :: int, 2, 3, 4])"
  have r: "reachable ?b"
    by (intro reachable_push reachable_new) simp
  have b: "bounds ?b"
    using r by (rule reachable_bounds)
  have c: "getCapacity ?b \<le> 2 ^ 53" "getCapacity ?b = 4"
    by (simp_all add: filled_buffer getCapacity_def)
  show ?thesis
    using r b c size_plus_freeSpace [of ?b] by simp
qed

text \<open>
  C10. On an Option in the none state, \<open>setValueIfNone(v)\<close> stores \<open>v\<close> as the internal
  value and leaves the presence flag as it was: afterwards \<open>isNone()\<close> is still true,
  \<open>isSome()\<close> is false, and \<open>getValue()\<close> returns \<open>v\<close>.
\<close>

theorem setValueIfNone_keeps_flag:
  assumes "isNone opt"
  shows "isNone (setValueIfNone opt v) \<and> \<not> isSome (setValueIfNone opt v)
         \<and> getValue (setValueIfNone opt v) = Some v"
  using assms by (simp add: setValueIfNone_def isNone_def isSome_def getValue_def)

theorem setValueIfNone_keeps_flag_witness:
  "isNone (none :: nat Option) \<and> isNone (setValueIfNone none (7 :: nat))
   \<and> \<not> isSome (setValueIfNone none (7 :: nat))
   \<and> getValue (setValueIfNone none (7 :: nat)) = Some 7"
proof -
  have h: "isNone (none :: nat Option)"
    by (simp add: isNone_def none_def)
  show ?thesis
    using h setValueIfNone_keeps_flag [OF h, of 7] by simp
qed

text \<open>
  C4. On an empty buffer, \<open>shift()\<close>, \<open>dequeue()\<close> and \<open>pop()\<close> return \<open>undefined\<close> and
  leave the object as it is (size 0) when \<open>allowOverremove\<close> is set, and throw
  InsufficientElements, again changing nothing, when it is not.
\<close>

theorem removal_from_empty:
  assumes "isEmpty b"
  shows "(allowOverremove b \<longrightarrow>
            shift b = (Inr None, b) \<and> dequeue b = (Inr None, b) \<and> pop b = (Inr None, b)
            \<and> size_cb (snd (shift b)) = 0 \<and> size_cb (snd (dequeue b)) = 0
            \<and> size_cb (snd (pop b)) = 0)
       \<and> (\<not> allowOverremove b \<longrightarrow>
            shift b = (Inl InsufficientElements, b)
            \<and> dequeue b = (Inl InsufficientElements, b)
            \<and> pop b = (Inl InsufficientElements, b))"
  using assms
  by (simp add: shift_def dequeue_def pop_def checkRemovalLimitations_def isEmpty_def
      size_cb_def)

theorem removal_from_empty_witness:
  "isEmpty (new_CircularBuffer 3 False True :: nat CircularBuffer)
   \<and> shift (new_CircularBuffer 3 False True :: nat CircularBuffer)
       = (Inr None, new_CircularBuffer 3 False True)
   \<and> pop (new_CircularBuffer 3 False True :: nat CircularBuffer)
       = (Inr None, new_CircularBuffer 3 False True)
   \<and> isEmpty (new_CircularBuffer 3 False False :: nat CircularBuffer)
   \<and> shift (new_CircularBuffer 3 False False :: nat CircularBuffer)
       = (Inl InsufficientElements, new_CircularBuffer 3 False False)
   \<and> dequeue (new_CircularBuffer 3 False False :: nat CircularBuffer)
       = (Inl InsufficientElements, new_CircularBuffer 3 False False)"
proof -
  have t: "isEmpty (new_CircularBuffer 3 False True :: nat CircularBuffer)"
    and f: "isEmpty (new_CircularBuffer 3 False False :: nat CircularBuffer)"
    by (simp_all add: isEmpty_def size_cb_def new_CircularBuffer_def)
  have "allowOverremove (new_CircularBuffer 3 False True :: nat CircularBuffer)"
    and "\<not> allowOverremove (new_CircularBuffer 3 False False :: nat CircularBuffer)"
    by (simp_all add: new_CircularBuffer_def)
  then show ?thesis
    using t f removal_from_empty [OF t] removal_from_empty [OF f] by simp
qed

text \<open>
  C3. With \<open>allowOverwrite = false\<close>, \<open>push\<close> and \<open>enqueue\<close> of \<open>n\<close> elements throw
  CapacityExceeded exactly when \<open>n > freeSpace()\<close>; when they throw, the object is
  unchanged (every field, hence \<open>size()\<close> and \<open>toArray()\<close>), and otherwise they
  return normally.
\<close>

theorem insertion_all_or_nothing:
  assumes "\<not> allowOverwrite b"
  shows "(fst (push b es) = Inl CapacityExceeded \<longleftrightarrow> int (length es) > freeSpace b)
       \<and> (fst (enqueue b es) = Inl CapacityExceeded \<longleftrightarrow> int (length es) > freeSpace b)
       \<and> (int (length es) > freeSpace b \<longrightarrow>
            push b es = (Inl CapacityExceeded, b) \<and> enqueue b es = (Inl CapacityExceeded, b)
            \<and> size_cb (snd (push b es)) = size_cb b \<and> toArray (snd (push b es)) = toArray b
            \<and> size_cb (snd (enqueue b es)) = size_cb b
            \<and> toArray (snd (enqueue b es)) = toArray b)
       \<and> (\<not> int (length es) > freeSpace b \<longrightarrow>
            (\<exists>k. fst (push b es) = Inr k) \<and> (\<exists>k. fst (enqueue b es) = Inr k))"
  using assms
  by (simp add: push_def enqueue_def checkInsertionLimitations_def Let_def)

theorem insertion_all_or_nothing_witness:
  "\<not> allowOverwrite (new_CircularBuffer 2 False False :: nat CircularBuffer)
   \<and> int (length [5 :: nat, 6, 7]) > freeSpace (new_CircularBuffer 2 False False :: nat CircularBuffer)
   \<and> push (new_CircularBuffer 2 False False) [5 :: nat, 6, 7]
       = (Inl CapacityExceeded, new_CircularBuffer 2 False False)
   \<and> enqueue (new_CircularBuffer 2 False False) [5 :: nat, 6, 7]
       = (Inl CapacityExceeded, new_CircularBuffer 2 False False)
   \<and> \<not> int (length [5 :: nat, 6]) > freeSpace (new_CircularBuffer 2 False False :: nat CircularBuffer)
   \<and> fst (push (new_CircularBuffer 2 False False) [5 :: nat, 6]) = Inr 2"
proof -
  have h: "\<not> allowOverwrite (new_CircularBuffer 2 False False :: nat CircularBuffer)"
    by (simp add: new_CircularBuffer_def)
  have big: "int (length [5 :: nat, 6, 7])
             > freeSpace (new_CircularBuffer 2 False False :: nat CircularBuffer)"
    and fits: "\<not> int (length [5 :: nat, 6])
             > freeSpace (new_CircularBuffer 2 False False :: nat CircularBuffer)"
    by (simp_all add: new_CircularBuffer_def freeSpace_def getCapacity_def size_cb_def f64_def)
  have run: "fst (push (new_CircularBuffer 2 False False) [5 :: nat, 6]) = Inr 2"
    by (simp add: push_def checkInsertionLimitations_def push_step_def Let_def query_defs
        new_CircularBuffer_def f64_def)
  show ?thesis
    using h big fits run insertion_all_or_nothing [OF h, of "[5, 6, 7]"]
      insertion_all_or_nothing [OF h, of "[5, 6]"]
    by simp
qed

end
